theory Spec2Isabelle
  imports Complex_Main "HOL-Library.Multiset"
begin

section \<open>Data of \<^verbatim>\<open>scripts/audit_categorization.py\<close>\<close>

text \<open>
  The function is modelled from line 17 on, as a function of the list \<^verbatim>\<open>products\<close> that
  the lines before it have read from the file. A row is a dictionary from column names
  to values; a value is a string, or Python's \<^verbatim>\<open>None\<close>. Strings are lists of characters;
  the text is taken to be ASCII, so \<^verbatim>\<open>str.lower\<close> maps \<^verbatim>\<open>A\<close>..\<^verbatim>\<open>Z\<close> to \<^verbatim>\<open>a\<close>..\<^verbatim>\<open>z\<close> and
  leaves every other character alone.
\<close>

datatype val = VNone | VStr string

type_synonym row = "string \<rightharpoonup> val"

text \<open>
  Lines 13 to 15 take each row from \<^verbatim>\<open>csv.DictReader\<close>, which builds it from the header
  of the file and the cells of one line: the column names are paired with the cells in
  order (a name that occurs twice keeps its last cell), and the columns for which the
  line has no cell are set to \<^verbatim>\<open>None\<close>. Cells beyond the header are stored under the key
  \<^verbatim>\<open>None\<close>, which the function never reads; they are left out.
\<close>

definition dict_row :: "string list \<Rightarrow> string list \<Rightarrow> row" where
  "dict_row fieldnames cells =
     map_of (rev (zip fieldnames
                    (map VStr cells @ replicate (length fieldnames - length cells) VNone)))"

text \<open>
  The exceptions the function can raise after the file has been read: \<^verbatim>\<open>p['Category']\<close>
  and \<^verbatim>\<open>p['Product Name']\<close> raise \<^verbatim>\<open>KeyError\<close> for an absent key, \<^verbatim>\<open>name.lower()\<close>
  raises \<^verbatim>\<open>AttributeError\<close> when \<^verbatim>\<open>name\<close> is \<^verbatim>\<open>None\<close>, and a division by zero would
  raise \<^verbatim>\<open>ZeroDivisionError\<close>.
\<close>

datatype error = KeyError string | AttributeError | ZeroDivisionError

text \<open>The dictionaries appended to \<^verbatim>\<open>mismatches\<close> (lines 61 to 65).\<close>

record mismatch =
  item :: string
  current :: val
  suggested :: string

subsection \<open>Strings\<close>

definition lower_char :: "char \<Rightarrow> char" where
  "lower_char c =
     (case map_of (zip ''ABCDEFGHIJKLMNOPQRSTUVWXYZ'' ''abcdefghijklmnopqrstuvwxyz'') c of
        None \<Rightarrow> c
      | Some d \<Rightarrow> d)"

definition lower :: "string \<Rightarrow> string" where
  "lower s = map lower_char s"

text \<open>\<^verbatim>\<open>s.startswith(sub)\<close>, and Python's substring test \<^verbatim>\<open>sub in s\<close> on strings.\<close>

fun startswith :: "string \<Rightarrow> string \<Rightarrow> bool" where
  "startswith s [] = True"
| "startswith [] (c # sub) = False"
| "startswith (d # s) (c # sub) = (d = c \<and> startswith s sub)"

fun str_in :: "string \<Rightarrow> string \<Rightarrow> bool" where
  "str_in sub [] = (sub = [])"
| "str_in sub (d # s) = (startswith (d # s) sub \<or> str_in sub s)"

subsection \<open>The rule table (lines 25 to 37)\<close>

text \<open>
  A Python dictionary keeps its keys in insertion order, and \<^verbatim>\<open>rules.items()\<close> iterates
  in that order, so the table is an association list in the order of the literal.
\<close>

definition rules :: "(string \<times> string list) list" where
  "rules =
   [(''Beverages'', [''Tea'', ''Coffee'', ''Juice'', ''Drink'', ''Water'', ''Mojito'',
      ''Cosmopolitan'', ''Milkshake'', ''Aamras'', ''Cola'', ''Soda'', ''Bev'']),
    (''Foodgrains, Oil & Masala'', [''Rice'', ''Atta'', ''Flour'', ''Dal'', ''Masala'',
      ''Powder'', ''Oil'', ''Salt'', ''Garam Masala'', ''Sugar'', ''Saffron'', ''Turmeric'',
      ''Pepper'', ''Dalia'', ''Tamarind'', ''Asafoetida'', ''Basmati'', ''Cumin'']),
    (''Beauty & Hygiene'', [''Soap'', ''Wash'', ''Shampoo'', ''Face'', ''Cream'', ''Oil'',
      ''Perfume'', ''Deoforant'', ''Toothpaste'', ''Scrub'', ''Lotion'', ''Gel'', ''Mask'',
      ''Sanitizer'', ''Conditioner'', ''Lip'', ''Serum'', ''Razor'', ''Blade'', ''Brush'']),
    (''Cleaning & Household'', [''Cleaner'', ''Detergent'', ''Bucket'', ''Fragrance'',
      ''Freshener'', ''Mop'', ''Broom'', ''Wipes'', ''Dishwash'', ''Umbrella'', ''Notebook'',
      ''Pencil'', ''Bag'', ''Hook'', ''Stationery'', ''Battery'', ''Folder'']),
    (''Snacks & Branded Foods'', [''Chips'', ''Biscuit'', ''Noodles'', ''Jam'', ''Mix'',
      ''Papad'', ''Chocolate'', ''Honey'', ''Pickle'', ''Popcorn'', ''Candy'', ''Muesli'',
      ''Dosa'', ''Idly'', ''Wafer'', ''Makhana'']),
    (''Kitchen, Garden & Pets'', [''Bottle'', ''Steel'', ''Bowl'', ''Container'', ''Glass'',
      ''Pan'', ''Knife'', ''Cooker'', ''Plate'', ''Mug'', ''Cat'', ''Dog'', ''Pet'', ''Lead'',
      ''Brush'', ''Tiffin'', ''Flask'', ''Vati'', ''Dabba'', ''Tumbler'']),
    (''Bakery, Cakes & Dairy'', [''Cheese'', ''Batter'', ''Yogurt'', ''Milk'', ''Bread'',
      ''Cake'', ''Butter'', ''Paneer'', ''Muffin'', ''Milkshake'']),
    (''Fruits & Vegetables'', [''Fresho'', ''Onion'', ''Garlic'', ''Lemon'', ''Cabbage'',
      ''Brinjal'', ''Avocado'', ''Ginger'', ''Chilli'', ''Tomato'', ''Potato'', ''Pumpkin'']),
    (''Eggs, Meat & Fish'', [''Prawns'', ''Salmon'', ''Chicken'', ''Pork'', ''Crab'',
      ''Sausage'', ''Salami'', ''Fish'']),
    (''Baby Care'', [''Diaper'', ''Baby'', ''Kids'', ''Mothercare'', ''Huggies'', ''Pampers'',
      ''New Born'']),
    (''Gourmet & World Food'', [''Olive'', ''Pasta'', ''Sauce'', ''Granola'', ''Blue Tea'',
      ''Coffee Roasters'', ''Muesli'', ''Sushi'', ''Wasabi'', ''Vinegar'', ''Tahini'',
      ''Jars''])]"

text \<open>
  \<^verbatim>\<open>rules.get(cat, [])\<close> (line 44): the keyword list stored under \<^verbatim>\<open>cat\<close>, the empty
  list when \<^verbatim>\<open>cat\<close> is not a key. \<^verbatim>\<open>None\<close> is never equal to a string key.
\<close>

fun rules_get :: "val \<Rightarrow> string list" where
  "rules_get VNone = []"
| "rules_get (VStr cat) = (case map_of rules cat of None \<Rightarrow> [] | Some kws \<Rightarrow> kws)"

text \<open>
  \<^verbatim>\<open>any(rule.lower() in name_lower for rule in cat_rules)\<close> (lines 49 and 56): the
  generator is consumed from the left and \<^verbatim>\<open>any\<close> stops at the first true element.
\<close>

fun any_rule_in :: "string list \<Rightarrow> string \<Rightarrow> bool" where
  "any_rule_in [] name_lower = False"
| "any_rule_in (rule # rest) name_lower =
     (if str_in (lower rule) name_lower then True else any_rule_in rest name_lower)"

section \<open>The function \<^verbatim>\<open>audit_categorization\<close>\<close>

subsection \<open>Insertion-ordered dictionaries\<close>

text \<open>
  \<^verbatim>\<open>categories\<close> and \<^verbatim>\<open>category_health\<close> are dictionaries that are iterated, so they
  are association lists in insertion order. \<^verbatim>\<open>d[k] = v\<close> replaces the value of a key
  that is present, in place, and appends a new key at the end.
\<close>

fun dict_set :: "'k \<Rightarrow> 'v \<Rightarrow> ('k \<times> 'v) list \<Rightarrow> ('k \<times> 'v) list" where
  "dict_set k v [] = [(k, v)]"
| "dict_set k v ((k', v') # d) =
     (if k' = k then (k, v) # d else (k', v') # dict_set k v d)"

text \<open>\<^verbatim>\<open>d[k].append(x)\<close> for a key \<^verbatim>\<open>k\<close> of \<^verbatim>\<open>d\<close>: the list stored under \<^verbatim>\<open>k\<close> grows by \<^verbatim>\<open>x\<close>.\<close>

fun dict_append :: "'k \<Rightarrow> 'a \<Rightarrow> ('k \<times> 'a list) list \<Rightarrow> ('k \<times> 'a list) list" where
  "dict_append k x [] = []"
| "dict_append k x ((k', xs) # d) =
     (if k' = k then (k', xs @ [x]) # d else (k', xs) # dict_append k x d)"

subsection \<open>Grouping by category (lines 17 to 22)\<close>

text \<open>
  One turn of the loop over \<^verbatim>\<open>products\<close>. \<^verbatim>\<open>p['Category']\<close> is read first; the key is
  added with an empty list when it is new; then \<^verbatim>\<open>p['Product Name']\<close> is read and
  appended. Either subscript raises \<^verbatim>\<open>KeyError\<close> when the row has no such key.
\<close>

definition group_row :: "(val \<times> val list) list \<Rightarrow> row \<Rightarrow> error + (val \<times> val list) list" where
  "group_row categories p =
     (case p ''Category'' of
        None \<Rightarrow> Inl (KeyError ''Category'')
      | Some cat \<Rightarrow>
          (let categories' =
                 (if cat \<notin> set (map fst categories) then dict_set cat [] categories
                  else categories)
           in case p ''Product Name'' of
                None \<Rightarrow> Inl (KeyError ''Product Name'')
              | Some name \<Rightarrow> Inr (dict_append cat name categories')))"

fun group_products ::
  "(val \<times> val list) list \<Rightarrow> row list \<Rightarrow> error + (val \<times> val list) list" where
  "group_products categories [] = Inr categories"
| "group_products categories (p # products) =
     (case group_row categories p of
        Inl e \<Rightarrow> Inl e
      | Inr categories' \<Rightarrow> group_products categories' products)"

subsection \<open>The audit loop (lines 42 to 67)\<close>

text \<open>
  The scan of the other categories (lines 53 to 58), over \<^verbatim>\<open>rules.items()\<close>: the entry
  of the current category is skipped, the first entry with a matching keyword is the
  result and ends the loop; \<^verbatim>\<open>None\<close> is what \<^verbatim>\<open>possible_match\<close> keeps otherwise.
\<close>

fun find_other :: "val \<Rightarrow> string \<Rightarrow> (string \<times> string list) list \<Rightarrow> string option" where
  "find_other cat name_lower [] = None"
| "find_other cat name_lower ((other_cat, other_rules) # rest) =
     (if VStr other_cat = cat then find_other cat name_lower rest
      else if any_rule_in other_rules name_lower then Some other_cat
      else find_other cat name_lower rest)"

text \<open>
  The body of the loop over \<^verbatim>\<open>items\<close> (lines 47 to 65), on the pair of
  \<^verbatim>\<open>correct_count\<close> and \<^verbatim>\<open>mismatches\<close>. \<^verbatim>\<open>if possible_match\<close> is Python's truth test:
  \<^verbatim>\<open>None\<close> and the empty string are both false.
\<close>

fun audit_item ::
  "val \<Rightarrow> string list \<Rightarrow> nat \<times> mismatch list \<Rightarrow> val \<Rightarrow> error + nat \<times> mismatch list" where
  "audit_item cat cat_rules (correct_count, mismatches) VNone = Inl AttributeError"
| "audit_item cat cat_rules (correct_count, mismatches) (VStr name) =
     (let name_lower = lower name
      in if any_rule_in cat_rules name_lower then Inr (correct_count + 1, mismatches)
         else (case find_other cat name_lower rules of
                 None \<Rightarrow> Inr (correct_count, mismatches)
               | Some possible_match \<Rightarrow>
                   if possible_match \<noteq> []
                   then Inr (correct_count,
                          mismatches @
                            [\<lparr>item = name, current = cat, suggested = possible_match\<rparr>])
                   else Inr (correct_count, mismatches)))"

fun audit_items ::
  "val \<Rightarrow> string list \<Rightarrow> val list \<Rightarrow> nat \<times> mismatch list \<Rightarrow> error + nat \<times> mismatch list" where
  "audit_items cat cat_rules [] st = Inr st"
| "audit_items cat cat_rules (name # items) st =
     (case audit_item cat cat_rules st name of
        Inl e \<Rightarrow> Inl e
      | Inr st' \<Rightarrow> audit_items cat cat_rules items st')"

text \<open>
  Line 67: \<^verbatim>\<open>(correct_count / len(items)) * 100 if items else 0\<close>. Python's \<^verbatim>\<open>/\<close> raises
  \<^verbatim>\<open>ZeroDivisionError\<close> on a zero divisor. The floating-point quotient is idealised as
  an exact rational: rounding is not part of the model.
\<close>

definition truediv :: "nat \<Rightarrow> nat \<Rightarrow> error + rat" where
  "truediv a b = (if b = 0 then Inl ZeroDivisionError else Inr (of_nat a / of_nat b))"

definition category_score :: "nat \<Rightarrow> val list \<Rightarrow> error + rat" where
  "category_score correct_count items =
     (if items \<noteq> []
      then (case truediv correct_count (length items) of
              Inl e \<Rightarrow> Inl e
            | Inr q \<Rightarrow> Inr (q * 100))
      else Inr 0)"

text \<open>The loop over \<^verbatim>\<open>categories.items()\<close>, on the pair of \<^verbatim>\<open>mismatches\<close> and \<^verbatim>\<open>category_health\<close>.\<close>

fun audit_groups ::
  "(val \<times> val list) list \<Rightarrow> mismatch list \<times> (val \<times> rat) list \<Rightarrow>
     error + mismatch list \<times> (val \<times> rat) list" where
  "audit_groups [] st = Inr st"
| "audit_groups ((cat, items) # rest) (mismatches, category_health) =
     (case audit_items cat (rules_get cat) items (0, mismatches) of
        Inl e \<Rightarrow> Inl e
      | Inr (correct_count, mismatches') \<Rightarrow>
          (case category_score correct_count items of
             Inl e \<Rightarrow> Inl e
           | Inr score \<Rightarrow>
               audit_groups rest (mismatches', dict_set cat score category_health)))"

subsection \<open>Removing repeated item names (lines 75 to 80)\<close>

fun unique_loop ::
  "mismatch list \<Rightarrow> mismatch list \<times> string set \<Rightarrow> mismatch list \<times> string set" where
  "unique_loop [] st = st"
| "unique_loop (m # ms) (unique_mismatches, seen) =
     (if item m \<notin> seen
      then unique_loop ms (unique_mismatches @ [m], insert (item m) seen)
      else unique_loop ms (unique_mismatches, seen))"

subsection \<open>The whole function\<close>

text \<open>
  The function prints and returns nothing. What it prints after the loops is read off
  \<^verbatim>\<open>category_health\<close> (every entry) and \<^verbatim>\<open>unique_mismatches\<close> (its first fifteen
  entries and its length), so these two are the result of the model; an exception
  leaves the function before either is printed.
\<close>

definition audit_categorization :: "row list \<Rightarrow> error + (val \<times> rat) list \<times> mismatch list" where
  "audit_categorization products =
     (case group_products [] products of
        Inl e \<Rightarrow> Inl e
      | Inr categories \<Rightarrow>
          (case audit_groups categories ([], []) of
             Inl e \<Rightarrow> Inl e
           | Inr (mismatches, category_health) \<Rightarrow>
               Inr (category_health, fst (unique_loop mismatches ([], {})))))"

section \<open>Reference notions used in the statements\<close>

text \<open>
  These definitions are not translations of code. They say, in the words of the
  specification, what the loops are expected to compute, and the theorems below compare
  the functions above with them.
\<close>

subsection \<open>Rows and the stable partition by category\<close>

text \<open>The two fields of a row that has both keys.\<close>

definition row_category :: "row \<Rightarrow> val" where
  "row_category p = the (p ''Category'')"

definition row_name :: "row \<Rightarrow> val" where
  "row_name p = the (p ''Product Name'')"

text \<open>The distinct elements of a list, in the order of their first appearance.\<close>

fun first_appearance_order :: "'a list \<Rightarrow> 'a list" where
  "first_appearance_order [] = []"
| "first_appearance_order (x # xs) = x # first_appearance_order (filter (\<lambda>y. y \<noteq> x) xs)"

text \<open>The names of the rows of one category, in input order, and the partition built from them.\<close>

definition members_of :: "val \<Rightarrow> row list \<Rightarrow> val list" where
  "members_of cat products = map row_name (filter (\<lambda>p. row_category p = cat) products)"

definition stable_partition :: "row list \<Rightarrow> (val \<times> val list) list" where
  "stable_partition products =
     map (\<lambda>cat. (cat, members_of cat products))
       (first_appearance_order (map row_category products))"

text \<open>A row as \<^verbatim>\<open>csv.DictReader\<close> builds it under a header with exactly the two columns.\<close>

definition mk_row :: "val \<Rightarrow> val \<Rightarrow> row" where
  "mk_row name cat = [''Product Name'' \<mapsto> name, ''Category'' \<mapsto> cat]"

text \<open>A dictionary of groups whose names are all strings.\<close>

definition lift_names :: "(val \<times> string list) list \<Rightarrow> (val \<times> val list) list" where
  "lift_names groups = map (\<lambda>(cat, names). (cat, map VStr names)) groups"

subsection \<open>Matcher, suggestion, score\<close>

text \<open>
  \<open>matches name cat\<close> is the test of lines 44, 47 and 49 taken together, the
  specification's \<^verbatim>\<open>Matcher.matches(name, category)\<close>. \<open>first_other_match\<close> is the first
  category of the table, in the order of the literal and leaving out the current
  category, that matches the name. \<open>expected_mismatches\<close> is the record an item is
  expected to add to \<^verbatim>\<open>mismatches\<close> (none, or one), and \<open>expected_score\<close> the alignment
  percentage of a group.
\<close>

definition matches :: "string \<Rightarrow> val \<Rightarrow> bool" where
  "matches name cat = any_rule_in (rules_get cat) (lower name)"

definition first_other_match :: "string \<Rightarrow> val \<Rightarrow> string option" where
  "first_other_match name cat =
     find (\<lambda>c. VStr c \<noteq> cat \<and> matches name (VStr c)) (map fst rules)"

definition expected_mismatches :: "val \<Rightarrow> string \<Rightarrow> mismatch list" where
  "expected_mismatches cat name =
     (if matches name cat then []
      else case first_other_match name cat of
             None \<Rightarrow> []
           | Some s \<Rightarrow> [\<lparr>item = name, current = cat, suggested = s\<rparr>])"

definition expected_score :: "val \<Rightarrow> string list \<Rightarrow> rat" where
  "expected_score cat names =
     (if names = [] then 0
      else 100 * of_nat (length (filter (\<lambda>name. matches name cat) names)) / of_nat (length names))"

subsection \<open>First occurrences\<close>

text \<open>The entries of a mismatch list whose item name has not occurred at an earlier position.\<close>

definition first_occurrences :: "mismatch list \<Rightarrow> mismatch list" where
  "first_occurrences ms =
     map (nth ms) (filter (\<lambda>i. item (ms ! i) \<notin> item ` set (take i ms)) [0..<length ms])"

section \<open>Properties\<close>

subsection \<open>Substring test, keyword lookup\<close>

lemma startswith_iff: "startswith s sub \<longleftrightarrow> (\<exists>ss. s = sub @ ss)"
  by (induction s sub rule: startswith.induct) auto

lemma str_in_iff: "str_in sub s \<longleftrightarrow> (\<exists>ps ss. s = ps @ sub @ ss)"
proof (induction s)
  case Nil
  show ?case by auto
next
  case (Cons d s)
  have "(\<exists>ps ss. d # s = ps @ sub @ ss) \<longleftrightarrow>
        (\<exists>ss. d # s = sub @ ss) \<or> (\<exists>ps ss. s = ps @ sub @ ss)"
  proof
    assume "\<exists>ps ss. d # s = ps @ sub @ ss"
    then obtain ps ss where eq: "d # s = ps @ sub @ ss" by blast
    show "(\<exists>ss. d # s = sub @ ss) \<or> (\<exists>ps ss. s = ps @ sub @ ss)"
    proof (cases ps)
      case Nil
      with eq show ?thesis by auto
    next
      case (Cons a ps')
      with eq have "s = ps' @ sub @ ss" by simp
      then show ?thesis by blast
    qed
  next
    assume "(\<exists>ss. d # s = sub @ ss) \<or> (\<exists>ps ss. s = ps @ sub @ ss)"
    then show "\<exists>ps ss. d # s = ps @ sub @ ss"
    proof
      assume "\<exists>ss. d # s = sub @ ss"
      then obtain ss where "d # s = [] @ sub @ ss" by auto
      then show ?thesis by blast
    next
      assume "\<exists>ps ss. s = ps @ sub @ ss"
      then obtain ps ss where "d # s = (d # ps) @ sub @ ss" by auto
      then show ?thesis by blast
    qed
  qed
  with Cons show ?case by (simp add: startswith_iff)
qed

lemma any_rule_in_iff:
  "any_rule_in cat_rules name_lower \<longleftrightarrow> (\<exists>rule \<in> set cat_rules. str_in (lower rule) name_lower)"
  by (induction cat_rules) auto

lemma rules_distinct: "distinct (map fst rules)"
  by (simp add: rules_def)

lemma rules_get_known: "(c, kws) \<in> set rules \<Longrightarrow> rules_get (VStr c) = kws"
  using rules_distinct by simp

lemma rules_get_unknown: "c \<notin> fst ` set rules \<Longrightarrow> rules_get (VStr c) = []"
  by (simp add: map_of_eq_None_iff[THEN iffD2])

text \<open>
  C3. The match test of the code, \<^verbatim>\<open>any(rule.lower() in name_lower for rule in
  rules.get(cat, []))\<close>, is true exactly when some keyword stored for the category,
  lower-cased, occurs as a contiguous piece of the lower-cased name. The lookup returns
  the keyword list of the table entry for a category of the table; for any other category
  (a string that is no key, or \<^verbatim>\<open>None\<close>) it returns the empty list, raises nothing, and
  the match test is false.
\<close>

theorem matcher_keyword_substring:
  "(any_rule_in (rules_get cat) (lower name) \<longleftrightarrow>
      (\<exists>kw \<in> set (rules_get cat). \<exists>ps ss. lower name = ps @ lower kw @ ss))
   \<and> (\<forall>c kws. (c, kws) \<in> set rules \<longrightarrow> rules_get (VStr c) = kws)
   \<and> ((\<forall>c. cat = VStr c \<longrightarrow> c \<notin> fst ` set rules) \<longrightarrow>
        rules_get cat = [] \<and> \<not> any_rule_in (rules_get cat) (lower name))"
proof (intro conjI allI impI)
  show "any_rule_in (rules_get cat) (lower name) \<longleftrightarrow>
      (\<exists>kw \<in> set (rules_get cat). \<exists>ps ss. lower name = ps @ lower kw @ ss)"
    by (simp add: any_rule_in_iff str_in_iff)
next
  fix c kws assume "(c, kws) \<in> set rules"
  then show "rules_get (VStr c) = kws" by (rule rules_get_known)
next
  assume u: "\<forall>c. cat = VStr c \<longrightarrow> c \<notin> fst ` set rules"
  show "rules_get cat = []"
  proof (cases cat)
    case VNone
    then show ?thesis by simp
  next
    case (VStr c)
    with u have "c \<notin> fst ` set rules" by simp
    then have "rules_get (VStr c) = []" by (rule rules_get_unknown)
    with VStr show ?thesis by simp
  qed
  then show "\<not> any_rule_in (rules_get cat) (lower name)" by simp
qed

text \<open>The statement at a name with a keyword of its category, at a table entry, and at a category without an entry.\<close>

theorem matcher_keyword_substring_witness:
  "any_rule_in (rules_get (VStr ''Beverages'')) (lower ''Green Tea'')
   \<and> (\<exists>kw \<in> set (rules_get (VStr ''Beverages'')). \<exists>ps ss. lower ''Green Tea'' = ps @ lower kw @ ss)
   \<and> (''Baby Care'', [''Diaper'', ''Baby'', ''Kids'', ''Mothercare'', ''Huggies'', ''Pampers'',
      ''New Born'']) \<in> set rules
   \<and> rules_get (VStr ''Baby Care'') = [''Diaper'', ''Baby'', ''Kids'', ''Mothercare'', ''Huggies'', ''Pampers'',
      ''New Born'']
   \<and> ''Toys'' \<notin> fst ` set rules
   \<and> rules_get (VStr ''Toys'') = [] \<and> \<not> any_rule_in (rules_get (VStr ''Toys'')) (lower ''Toy Tea'')"
proof -
  have a: "any_rule_in (rules_get (VStr ''Beverages'')) (lower ''Green Tea'')"
    by (simp add: rules_def lower_def lower_char_def)
  have b: "(''Baby Care'', [''Diaper'', ''Baby'', ''Kids'', ''Mothercare'', ''Huggies'', ''Pampers'',
      ''New Born'']) \<in> set rules"
    by (simp add: rules_def)
  have n: "''Toys'' \<notin> fst ` set rules"
    by (simp add: rules_def)
  then have c: "\<forall>c. VStr ''Toys'' = VStr c \<longrightarrow> c \<notin> fst ` set rules"
    by simp
  from a b c n matcher_keyword_substring [of "VStr ''Beverages''" "''Green Tea''"]
    matcher_keyword_substring [of "VStr ''Baby Care''" "''Green Tea''"]
    matcher_keyword_substring [of "VStr ''Toys''" "''Toy Tea''"]
  show ?thesis by blast
qed

subsection \<open>Grouping\<close>

lemma set_first_appearance_order: "set (first_appearance_order xs) = set xs"
  by (induction xs rule: first_appearance_order.induct) auto

lemma distinct_first_appearance_order: "distinct (first_appearance_order xs)"
  by (induction xs rule: first_appearance_order.induct) (auto simp: set_first_appearance_order)

lemma dict_set_new: "k \<notin> set (map fst d) \<Longrightarrow> dict_set k v d = d @ [(k, v)]"
  by (induction d) auto

lemma dict_append_distinct:
  "distinct (map fst d) \<Longrightarrow>
   dict_append k x d = map (\<lambda>(k', xs). (k', if k' = k then xs @ [x] else xs)) d"
proof (induction d)
  case Nil
  show ?case by simp
next
  case (Cons a d)
  obtain k' xs where a: "a = (k', xs)" by (cases a)
  show ?case
  proof (cases "k' = k")
    case True
    with Cons.prems a have "k \<notin> fst ` set d" by simp
    then have "map (\<lambda>(k', xs). (k', if k' = k then xs @ [x] else xs)) d = d"
      by (induction d) auto
    with True a show ?thesis by simp
  next
    case False
    with Cons a show ?thesis by simp
  qed
qed

lemma group_row_present:
  assumes "p ''Category'' = Some cat" "p ''Product Name'' = Some name"
    "cat \<in> set (map fst categories)"
  shows "group_row categories p = Inr (dict_append cat name categories)"
  using assms by (simp add: group_row_def)

lemma group_row_new:
  assumes "p ''Category'' = Some cat" "p ''Product Name'' = Some name"
    "cat \<notin> set (map fst categories)"
  shows "group_row categories p = Inr (categories @ [(cat, [name])])"
proof -
  have "dict_append cat name (categories @ [(cat, [])]) = categories @ [(cat, [name])]"
    using assms(3) by (induction categories) auto
  with assms show ?thesis by (simp add: group_row_def dict_set_new)
qed

lemma group_products_acc:
  assumes "\<forall>p \<in> set products. p ''Category'' \<noteq> None \<and> p ''Product Name'' \<noteq> None"
    and "distinct (map fst acc)"
  shows "group_products acc products =
     Inr (map (\<lambda>(cat, xs). (cat, xs @ members_of cat products)) acc @
          map (\<lambda>cat. (cat, members_of cat products))
            (first_appearance_order
               (filter (\<lambda>cat. cat \<notin> set (map fst acc)) (map row_category products))))"
  using assms
proof (induction products arbitrary: acc)
  case Nil
  show ?case by (simp add: members_of_def)
next
  case (Cons p products)
  from Cons.prems obtain cat name where
    c: "p ''Category'' = Some cat" and n: "p ''Product Name'' = Some name"
    by auto
  have rc: "row_category p = cat" and rn: "row_name p = name"
    using c n by (simp_all add: row_category_def row_name_def)
  have rest: "\<forall>p \<in> set products. p ''Category'' \<noteq> None \<and> p ''Product Name'' \<noteq> None"
    using Cons.prems by simp
  have mem: "members_of k (p # products) =
      (if k = cat then name # members_of k products else members_of k products)" for k
    using rc rn by (auto simp: members_of_def)
  show ?case
  proof (cases "cat \<in> set (map fst acc)")
    case True
    let ?acc' = "dict_append cat name acc"
    have step: "group_row acc p = Inr ?acc'"
      using c n True by (rule group_row_present)
    have acc': "?acc' = map (\<lambda>(k', xs). (k', if k' = cat then xs @ [name] else xs)) acc"
      using Cons.prems(2) by (rule dict_append_distinct)
    have keys: "map fst ?acc' = map fst acc"
      unfolding acc' by (induction acc) auto
    have d: "distinct (map fst ?acc')"
      using keys Cons.prems(2) by simp
    have old: "map (\<lambda>(cat, xs). (cat, xs @ members_of cat products)) ?acc' =
        map (\<lambda>(cat, xs). (cat, xs @ members_of cat (p # products))) acc"
      unfolding acc' by (induction acc) (auto simp: mem)
    have new: "map (\<lambda>cat. (cat, members_of cat products)) ks =
        map (\<lambda>cat. (cat, members_of cat (p # products))) ks"
      if "set ks \<subseteq> - set (map fst acc)" for ks
      using that True by (induction ks) (auto simp: mem)
    have sub: "set (first_appearance_order
          (filter (\<lambda>cat. cat \<notin> set (map fst acc)) (map row_category products)))
        \<subseteq> - set (map fst acc)"
      by (auto simp: set_first_appearance_order)
    have flt: "filter (\<lambda>k. k \<notin> set (map fst acc)) (map row_category (p # products)) =
        filter (\<lambda>k. k \<notin> set (map fst acc)) (map row_category products)"
      using True rc by simp
    have "group_products acc (p # products) = group_products ?acc' products"
      using step by simp
    also have "\<dots> = Inr (map (\<lambda>(cat, xs). (cat, xs @ members_of cat products)) ?acc' @
          map (\<lambda>cat. (cat, members_of cat products))
            (first_appearance_order
               (filter (\<lambda>cat. cat \<notin> set (map fst ?acc')) (map row_category products))))"
      using rest d by (rule Cons.IH)
    also have "\<dots> = Inr (map (\<lambda>(cat, xs). (cat, xs @ members_of cat (p # products))) acc @
          map (\<lambda>cat. (cat, members_of cat (p # products)))
            (first_appearance_order
               (filter (\<lambda>cat. cat \<notin> set (map fst acc)) (map row_category (p # products)))))"
      unfolding keys old new [OF sub] flt ..
    finally show ?thesis .
  next
    case False
    let ?acc' = "acc @ [(cat, [name])]"
    let ?ks = "first_appearance_order (filter (\<lambda>y. y \<noteq> cat)
             (filter (\<lambda>k. k \<notin> set (map fst acc)) (map row_category products)))"
    have step: "group_row acc p = Inr ?acc'"
      using c n False by (rule group_row_new)
    have d: "distinct (map fst ?acc')"
      using False Cons.prems(2) by simp
    have old: "map (\<lambda>(cat, xs). (cat, xs @ members_of cat products)) acc =
        map (\<lambda>(cat, xs). (cat, xs @ members_of cat (p # products))) acc"
      using False by (induction acc) (auto simp: mem)
    have new: "map (\<lambda>k. (k, members_of k products)) ks =
        map (\<lambda>k. (k, members_of k (p # products))) ks"
      if "cat \<notin> set ks" for ks
      using that by (induction ks) (auto simp: mem)
    have flt: "filter (\<lambda>k. k \<notin> set (map fst ?acc')) xs =
        filter (\<lambda>y. y \<noteq> cat) (filter (\<lambda>k. k \<notin> set (map fst acc)) xs)" for xs
      by (induction xs) auto
    have notin: "cat \<notin> set ?ks"
      by (simp add: set_first_appearance_order)
    have fao: "first_appearance_order
          (filter (\<lambda>k. k \<notin> set (map fst acc)) (map row_category (p # products))) = cat # ?ks"
      using False rc by simp
    have "group_products acc (p # products) = group_products ?acc' products"
      using step by simp
    also have "\<dots> = Inr (map (\<lambda>(cat, xs). (cat, xs @ members_of cat products)) ?acc' @
          map (\<lambda>cat. (cat, members_of cat products))
            (first_appearance_order
               (filter (\<lambda>cat. cat \<notin> set (map fst ?acc')) (map row_category products))))"
      using rest d by (rule Cons.IH)
    also have "\<dots> = Inr (map (\<lambda>(cat, xs). (cat, xs @ members_of cat products)) acc @
          (cat, name # members_of cat products) # map (\<lambda>cat. (cat, members_of cat products)) ?ks)"
      unfolding flt by simp
    also have "\<dots> = Inr (map (\<lambda>(cat, xs). (cat, xs @ members_of cat (p # products))) acc @
          (cat, members_of cat (p # products)) #
          map (\<lambda>cat. (cat, members_of cat (p # products))) ?ks)"
      unfolding old new [OF notin] by (simp add: mem)
    also have "\<dots> = Inr (map (\<lambda>(cat, xs). (cat, xs @ members_of cat (p # products))) acc @
          map (\<lambda>cat. (cat, members_of cat (p # products)))
            (first_appearance_order
               (filter (\<lambda>cat. cat \<notin> set (map fst acc)) (map row_category (p # products)))))"
      unfolding fao by simp
    finally show ?thesis .
  qed
qed

lemma group_products_stable_partition:
  assumes "\<forall>p \<in> set products. p ''Category'' \<noteq> None \<and> p ''Product Name'' \<noteq> None"
  shows "group_products [] products = Inr (stable_partition products)"
  using group_products_acc [OF assms, of "[]"] by (simp add: stable_partition_def)

lemma group_products_missing:
  assumes "\<exists>p \<in> set products. p ''Category'' = None \<or> p ''Product Name'' = None"
  shows "\<exists>k. group_products acc products = Inl (KeyError k)"
  using assms
proof (induction products arbitrary: acc)
  case Nil
  then show ?case by simp
next
  case (Cons p products)
  show ?case
  proof (cases "p ''Category'' = None \<or> p ''Product Name'' = None")
    case True
    then have "\<exists>k. group_row acc p = Inl (KeyError k)"
      by (auto simp: group_row_def Let_def split: option.splits)
    then show ?thesis by auto
  next
    case False
    then obtain acc' where "group_row acc p = Inr acc'"
      by (auto simp: group_row_def Let_def)
    moreover from False Cons.prems
    have "\<exists>p \<in> set products. p ''Category'' = None \<or> p ''Product Name'' = None"
      by auto
    then have "\<exists>k. group_products acc' products = Inl (KeyError k)"
      by (rule Cons.IH)
    ultimately show ?thesis by simp
  qed
qed

lemma mset_filter_split:
  assumes "\<And>x. \<not> (P x \<and> Q x)"
  shows "mset (map f (filter P xs)) + mset (map f (filter Q xs)) =
         mset (map f (filter (\<lambda>x. P x \<or> Q x) xs))"
  using assms by (induction xs) auto

lemma mset_groups:
  assumes "distinct ks"
  shows "mset (concat (map (\<lambda>k. map (Pair k) (members_of k ps)) ks)) =
         mset (map (\<lambda>p. (row_category p, row_name p))
                 (filter (\<lambda>p. row_category p \<in> set ks) ps))"
  using assms
proof (induction ks)
  case Nil
  show ?case by simp
next
  case (Cons k ks)
  have one: "map (Pair k) (members_of k ps) =
      map (\<lambda>p. (row_category p, row_name p)) (filter (\<lambda>p. row_category p = k) ps)"
    by (induction ps) (auto simp: members_of_def)
  have disj: "\<not> (row_category x = k \<and> row_category x \<in> set ks)" for x
    using Cons.prems by auto
  have "mset (concat (map (\<lambda>k. map (Pair k) (members_of k ps)) (k # ks))) =
      mset (map (\<lambda>p. (row_category p, row_name p)) (filter (\<lambda>p. row_category p = k) ps)) +
      mset (map (\<lambda>p. (row_category p, row_name p))
                 (filter (\<lambda>p. row_category p \<in> set ks) ps))"
    using Cons by (simp add: one)
  also have "\<dots> = mset (map (\<lambda>p. (row_category p, row_name p))
      (filter (\<lambda>p. row_category p = k \<or> row_category p \<in> set ks) ps))"
    using disj by (rule mset_filter_split)
  finally show ?case by simp
qed

lemma stable_partition_keys:
  "map fst (stable_partition products) = first_appearance_order (map row_category products)"
  by (simp add: stable_partition_def comp_def)

lemma stable_partition_mset:
  "mset (concat (map (\<lambda>(cat, items). map (Pair cat) items) (stable_partition products))) =
   mset (map (\<lambda>p. (row_category p, row_name p)) products)"
proof -
  let ?ks = "first_appearance_order (map row_category products)"
  have "concat (map (\<lambda>(cat, items). map (Pair cat) items) (stable_partition products)) =
      concat (map (\<lambda>k. map (Pair k) (members_of k products)) ?ks)"
    by (simp add: stable_partition_def comp_def)
  moreover have "filter (\<lambda>p. row_category p \<in> set ?ks) products = products"
    by (simp add: set_first_appearance_order)
  ultimately show ?thesis
    using mset_groups [of ?ks products] distinct_first_appearance_order [of "map row_category products"]
    by simp
qed

text \<open>
  C7. When every row has both keys, grouping returns a dictionary whose keys are the
  categories of the input in the order of their first appearance, without repetition;
  the list stored under a category holds the names of exactly the rows of that category,
  in input order; every row belongs to exactly one group; and the groups together hold
  every (category, name) pair of the input as often as the input does.
\<close>

theorem grouping_is_stable_partition:
  assumes "\<forall>p \<in> set products. p ''Category'' \<noteq> None \<and> p ''Product Name'' \<noteq> None"
  shows "\<exists>categories.
     group_products [] products = Inr categories
     \<and> map fst categories = first_appearance_order (map row_category products)
     \<and> distinct (map fst categories)
     \<and> (\<forall>(cat, items) \<in> set categories.
          items = map row_name (filter (\<lambda>p. row_category p = cat) products))
     \<and> (\<forall>p \<in> set products. \<exists>!g. g \<in> set categories \<and> fst g = row_category p)
     \<and> mset (concat (map (\<lambda>(cat, items). map (Pair cat) items) categories)) =
         mset (map (\<lambda>p. (row_category p, row_name p)) products)"
proof (intro exI conjI)
  let ?cs = "stable_partition products"
  show "group_products [] products = Inr ?cs"
    using assms by (rule group_products_stable_partition)
  show keys: "map fst ?cs = first_appearance_order (map row_category products)"
    by (rule stable_partition_keys)
  show d: "distinct (map fst ?cs)"
    unfolding keys by (rule distinct_first_appearance_order)
  show "\<forall>(cat, items) \<in> set ?cs.
          items = map row_name (filter (\<lambda>p. row_category p = cat) products)"
    by (auto simp: stable_partition_def members_of_def)
  show "\<forall>p \<in> set products. \<exists>!g. g \<in> set ?cs \<and> fst g = row_category p"
  proof
    fix p assume p: "p \<in> set products"
    then have "row_category p \<in> set (map fst ?cs)"
      unfolding keys by (simp add: set_first_appearance_order)
    then obtain g where g: "g \<in> set ?cs" "fst g = row_category p" by auto
    moreover have "g' = g" if "g' \<in> set ?cs" "fst g' = row_category p" for g'
      using that g d by (metis eq_key_imp_eq_value prod.collapse)
    ultimately show "\<exists>!g. g \<in> set ?cs \<and> fst g = row_category p" by blast
  qed
  show "mset (concat (map (\<lambda>(cat, items). map (Pair cat) items) ?cs)) =
         mset (map (\<lambda>p. (row_category p, row_name p)) products)"
    by (rule stable_partition_mset)
qed

text \<open>The statement on three rows of two categories.\<close>

theorem grouping_is_stable_partition_witness:
  "group_products []
     [mk_row (VStr ''Green Tea'') (VStr ''Bakery''),
      mk_row (VStr ''Cola'') (VStr ''Beverages''),
      mk_row (VStr ''Bread'') (VStr ''Bakery'')] =
     Inr [(VStr ''Bakery'', [VStr ''Green Tea'', VStr ''Bread'']),
          (VStr ''Beverages'', [VStr ''Cola''])]"
proof -
  let ?ps = "[mk_row (VStr ''Green Tea'') (VStr ''Bakery''),
              mk_row (VStr ''Cola'') (VStr ''Beverages''),
              mk_row (VStr ''Bread'') (VStr ''Bakery'')]"
  have h: "\<forall>p \<in> set ?ps. p ''Category'' \<noteq> None \<and> p ''Product Name'' \<noteq> None"
    by (simp add: mk_row_def)
  from grouping_is_stable_partition [OF h] obtain categories where
    g: "group_products [] ?ps = Inr categories"
    and k: "map fst categories = first_appearance_order (map row_category ?ps)"
    and m: "\<forall>(cat, items) \<in> set categories.
          items = map row_name (filter (\<lambda>p. row_category p = cat) ?ps)"
    by blast
  have ks: "first_appearance_order (map row_category ?ps) = [VStr ''Bakery'', VStr ''Beverages'']"
    by (simp add: mk_row_def row_category_def)
  with k obtain a b where c: "categories = [(VStr ''Bakery'', a), (VStr ''Beverages'', b)]"
    by (auto simp: map_eq_Cons_conv)
  from m c have "a = map row_name (filter (\<lambda>p. row_category p = VStr ''Bakery'') ?ps)"
    and "b = map row_name (filter (\<lambda>p. row_category p = VStr ''Beverages'') ?ps)"
    by simp_all
  then have "a = [VStr ''Green Tea'', VStr ''Bread'']" and "b = [VStr ''Cola'']"
    by (simp_all add: mk_row_def row_category_def row_name_def)
  with g c show ?thesis by simp
qed

subsection \<open>The audit loop in closed form\<close>

lemma rules_keys_nonempty: "\<forall>c \<in> set (map fst rules). c \<noteq> []"
  by (simp add: rules_def)

lemma find_other_sub:
  assumes "set rs \<subseteq> set rules"
  shows "find_other cat (lower name) rs =
         find (\<lambda>c. VStr c \<noteq> cat \<and> matches name (VStr c)) (map fst rs)"
  using assms
proof (induction rs)
  case Nil
  show ?case by simp
next
  case (Cons r rs)
  obtain other_cat other_rules where r: "r = (other_cat, other_rules)" by (cases r)
  with Cons.prems have "(other_cat, other_rules) \<in> set rules" by simp
  then have "rules_get (VStr other_cat) = other_rules" by (rule rules_get_known)
  then have m: "matches name (VStr other_cat) = any_rule_in other_rules (lower name)"
    by (simp only: matches_def)
  from Cons have "find_other cat (lower name) rs =
         find (\<lambda>c. VStr c \<noteq> cat \<and> matches name (VStr c)) (map fst rs)" by simp
  with r m show ?case by auto
qed

lemma find_other_rules:
  "find_other cat (lower name) rules = first_other_match name cat"
  unfolding first_other_match_def by (rule find_other_sub) simp

lemma first_other_match_nonempty: "first_other_match name cat = Some s \<Longrightarrow> s \<noteq> []"
  using rules_keys_nonempty
  by (auto simp: first_other_match_def find_Some_iff)

lemma audit_item_closed:
  "audit_item cat (rules_get cat) (n, ms) (VStr name) =
     Inr (n + (if matches name cat then 1 else 0), ms @ expected_mismatches cat name)"
proof (cases "matches name cat")
  case True
  then show ?thesis by (simp add: matches_def expected_mismatches_def)
next
  case False
  show ?thesis
  proof (cases "first_other_match name cat")
    case None
    with False show ?thesis
      by (simp add: matches_def [symmetric] expected_mismatches_def find_other_rules)
  next
    case (Some s)
    then have "s \<noteq> []" by (rule first_other_match_nonempty)
    with False Some show ?thesis
      by (simp add: matches_def [symmetric] expected_mismatches_def find_other_rules)
  qed
qed

lemma audit_items_closed:
  "audit_items cat (rules_get cat) (map VStr names) (n, ms) =
     Inr (n + length (filter (\<lambda>name. matches name cat) names),
          ms @ concat (map (expected_mismatches cat) names))"
proof (induction names arbitrary: n ms)
  case Nil
  show ?case by simp
next
  case (Cons name names)
  show ?case
    by (simp only: list.map audit_items.simps audit_item_closed sum.case Cons.IH)
       simp
qed

lemma category_score_closed:
  "category_score n items =
     Inr (if items = [] then 0 else 100 * of_nat n / of_nat (length items))"
  by (simp add: category_score_def truediv_def)

lemma audit_groups_closed:
  "audit_groups (map (\<lambda>(cat, names). (cat, map VStr names)) groups) (ms, health) =
     Inr (ms @ concat (map (\<lambda>(cat, names). concat (map (expected_mismatches cat) names)) groups),
          fold (\<lambda>(cat, names). dict_set cat (expected_score cat names)) groups health)"
proof (induction groups arbitrary: ms health)
  case Nil
  show ?case by simp
next
  case (Cons g groups)
  obtain cat names where g: "g = (cat, names)" by (cases g)
  have sc: "category_score (length (filter (\<lambda>name. matches name cat) names)) (map VStr names) =
      Inr (expected_score cat names)"
    by (simp add: category_score_closed expected_score_def)
  show ?case
    unfolding g
    by (simp only: list.map prod.case audit_groups.simps audit_items_closed sum.case
          add_0 sc Cons.IH fold_simps concat.simps append_assoc)
qed

lemma fold_dict_set_distinct:
  assumes "distinct (map fst kvs)" "set (map fst kvs) \<inter> set (map fst d) = {}"
  shows "fold (\<lambda>(k, v). dict_set k (f k v)) kvs d = d @ map (\<lambda>(k, v). (k, f k v)) kvs"
  using assms
proof (induction kvs arbitrary: d)
  case Nil
  show ?case by simp
next
  case (Cons kv kvs)
  obtain k v where kv: "kv = (k, v)" by (cases kv)
  with Cons.prems have "k \<notin> set (map fst d)" by auto
  then have s: "dict_set k (f k v) d = d @ [(k, f k v)]" by (rule dict_set_new)
  have "fold (\<lambda>(k, v). dict_set k (f k v)) kvs (d @ [(k, f k v)]) =
      (d @ [(k, f k v)]) @ map (\<lambda>(k, v). (k, f k v)) kvs"
    using Cons.prems kv by (intro Cons.IH) auto
  with kv s show ?case by simp
qed

lemma audit_item_str: "\<exists>st'. audit_item cat cat_rules st (VStr name) = Inr st'"
  by (cases st) (auto simp: Let_def split: option.splits)

lemma audit_items_none:
  "VNone \<in> set items \<Longrightarrow> audit_items cat cat_rules items st = Inl AttributeError"
proof (induction items arbitrary: st)
  case Nil
  then show ?case by simp
next
  case (Cons v items)
  show ?case
  proof (cases v)
    case VNone
    then show ?thesis by (cases st) simp
  next
    case (VStr name)
    with Cons.prems have "VNone \<in> set items" by simp
    moreover obtain st' where "audit_item cat cat_rules st (VStr name) = Inr st'"
      using audit_item_str by blast
    ultimately show ?thesis using VStr by (simp add: Cons.IH)
  qed
qed

lemma strings_or_none: "VNone \<in> set items \<or> (\<exists>names. items = map VStr names)"
proof (induction items)
  case Nil
  show ?case by simp
next
  case (Cons v items)
  show ?case
  proof (cases v)
    case VNone
    then show ?thesis by simp
  next
    case (VStr name)
    from Cons show ?thesis
    proof
      assume "VNone \<in> set items"
      then show ?thesis by simp
    next
      assume "\<exists>names. items = map VStr names"
      then obtain names where "items = map VStr names" ..
      with VStr have "v # items = map VStr (name # names)" by simp
      then show ?thesis by (intro disjI2 exI)
    qed
  qed
qed

lemma audit_groups_none:
  assumes "\<exists>(cat, items) \<in> set categories. VNone \<in> set items"
  shows "audit_groups categories st = Inl AttributeError"
  using assms
proof (induction categories arbitrary: st)
  case Nil
  then show ?case by simp
next
  case (Cons g categories)
  obtain cat items where g: "g = (cat, items)" by (cases g)
  obtain ms health where st: "st = (ms, health)" by (cases st)
  show ?case
  proof (cases "VNone \<in> set items")
    case True
    then have "audit_items cat (rules_get cat) items (0, ms) = Inl AttributeError"
      by (rule audit_items_none)
    with g st show ?thesis by simp
  next
    case False
    with strings_or_none [of items] obtain names where n: "items = map VStr names" by blast
    from False g Cons.prems
    have "\<exists>(cat, items) \<in> set categories. VNone \<in> set items" by auto
    then have "audit_groups categories st' = Inl AttributeError" for st'
      by (rule Cons.IH)
    with g st n show ?thesis
      by (simp add: audit_items_closed category_score_closed)
  qed
qed

lemma groups_typed:
  assumes "\<forall>(cat, items) \<in> set categories. VNone \<notin> set items"
  shows "\<exists>groups. categories = map (\<lambda>(cat, names). (cat, map VStr names)) groups"
  using assms
proof (induction categories)
  case Nil
  show ?case by simp
next
  case (Cons g categories)
  obtain cat items where g: "g = (cat, items)" by (cases g)
  with Cons.prems have "VNone \<notin> set items" by simp
  with strings_or_none [of items] obtain names where n: "items = map VStr names" by blast
  from Cons obtain groups where
    "categories = map (\<lambda>(cat, names). (cat, map VStr names)) groups" by auto
  with g n have "g # categories = map (\<lambda>(cat, names). (cat, map VStr names)) ((cat, names) # groups)"
    by simp
  then show ?case by (rule exI)
qed

lemma first_occurrences_Cons:
  "map (nth (m # ms))
     (filter (\<lambda>i. item ((m # ms) ! i) \<notin> seen \<union> item ` set (take i (m # ms)))
        [0..<length (m # ms)]) =
   (if item m \<in> seen then [] else [m]) @
   map (nth ms)
     (filter (\<lambda>i. item (ms ! i) \<notin> insert (item m) seen \<union> item ` set (take i ms))
        [0..<length ms])"
proof -
  let ?P = "\<lambda>i. item ((m # ms) ! i) \<notin> seen \<union> item ` set (take i (m # ms))"
  let ?Q = "\<lambda>i. item (ms ! i) \<notin> insert (item m) seen \<union> item ` set (take i ms)"
  have idx: "[0..<length (m # ms)] = 0 # map Suc [0..<length ms]"
    by (simp add: upt_conv_Cons map_Suc_upt del: upt_Suc)
  have q: "filter (\<lambda>i. ?P (Suc i)) xs = filter ?Q xs" for xs
    by (rule filter_cong) auto
  have "filter ?P (map Suc [0..<length ms]) = map Suc (filter ?Q [0..<length ms])"
    unfolding filter_map comp_def q ..
  then have tail: "map (nth (m # ms)) (filter ?P (map Suc [0..<length ms])) =
      map (nth ms) (filter ?Q [0..<length ms])"
    by simp
  show ?thesis
  proof (cases "item m \<in> seen")
    case True
    then have "filter ?P (0 # map Suc [0..<length ms]) = filter ?P (map Suc [0..<length ms])"
      by simp
    with tail True show ?thesis
      unfolding idx by (simp only: if_True append_Nil)
  next
    case False
    then have "filter ?P (0 # map Suc [0..<length ms]) =
        0 # filter ?P (map Suc [0..<length ms])"
      by simp
    with tail False show ?thesis
      unfolding idx by (simp only: if_False list.map nth_Cons_0 append.simps)
  qed
qed

lemma unique_loop_closed:
  "fst (unique_loop ms (um, seen)) =
     um @ map (nth ms)
            (filter (\<lambda>i. item (ms ! i) \<notin> seen \<union> item ` set (take i ms)) [0..<length ms])"
proof (induction ms arbitrary: um seen)
  case Nil
  show ?case by simp
next
  case (Cons m ms)
  show ?case
  proof (cases "item m \<in> seen")
    case True
    then have "insert (item m) seen = seen" by auto
    with True show ?thesis
      by (simp only: first_occurrences_Cons unique_loop.simps Cons.IH if_True if_False
            not_True_eq_False append.simps)
  next
    case False
    then show ?thesis
      by (simp only: first_occurrences_Cons unique_loop.simps Cons.IH if_True if_False
            not_False_eq_True append.simps append_assoc)
  qed
qed

lemma unique_loop_distinct:
  assumes "distinct (map item um)" "item ` set um \<subseteq> seen"
  shows "distinct (map item (fst (unique_loop ms (um, seen))))"
  using assms
proof (induction ms arbitrary: um seen)
  case Nil
  then show ?case by simp
next
  case (Cons m ms)
  show ?case
  proof (cases "item m \<in> seen")
    case True
    with Cons show ?thesis by simp
  next
    case False
    with Cons.prems have "distinct (map item (um @ [m]))"
      and "item ` set (um @ [m]) \<subseteq> insert (item m) seen"
      by auto
    then have "distinct (map item (fst (unique_loop ms (um @ [m], insert (item m) seen))))"
      by (rule Cons.IH)
    with False show ?thesis by simp
  qed
qed

subsection \<open>The whole function\<close>

lemma unique_loop_first_occurrences:
  "fst (unique_loop ms ([], {})) = first_occurrences ms"
  using unique_loop_closed [of ms "[]" "{}"] by (simp add: first_occurrences_def)

lemma first_occurrences_distinct: "distinct (map item (first_occurrences ms))"
  using unique_loop_distinct [of "[]" "{}" ms] by (simp add: unique_loop_first_occurrences)

lemma first_occurrences_subset: "set (first_occurrences ms) \<subseteq> set ms"
  by (auto simp: first_occurrences_def)

lemma audit_groups_typed:
  assumes "distinct (map fst groups)"
  shows "audit_groups (map (\<lambda>(cat, names). (cat, map VStr names)) groups) ([], []) =
     Inr (concat (map (\<lambda>(cat, names). concat (map (expected_mismatches cat) names)) groups),
          map (\<lambda>(cat, names). (cat, expected_score cat names)) groups)"
  using assms fold_dict_set_distinct [of groups "[]" expected_score]
  by (simp add: audit_groups_closed)

lemma expected_score_bounds: "0 \<le> expected_score cat names \<and> expected_score cat names \<le> 100"
proof (cases "names = []")
  case True
  then show ?thesis by (simp add: expected_score_def)
next
  case False
  let ?k = "length (filter (\<lambda>name. matches name cat) names)"
  have "?k \<le> length names" by simp
  then have "(of_nat ?k :: rat) \<le> of_nat (length names)" by (simp only: of_nat_le_iff)
  moreover from False have "(0::rat) < of_nat (length names)" by simp
  ultimately have "(of_nat ?k :: rat) / of_nat (length names) \<le> 1"
    by (simp add: divide_le_eq_1)
  then have "100 * ((of_nat ?k :: rat) / of_nat (length names)) \<le> 100 * 1"
    by (intro mult_left_mono) simp_all
  then have up: "100 * (of_nat ?k :: rat) / of_nat (length names) \<le> 100"
    by simp
  have lo: "(0::rat) \<le> 100 * of_nat ?k / of_nat (length names)" by simp
  from False have "expected_score cat names = 100 * of_nat ?k / of_nat (length names)"
    by (simp add: expected_score_def)
  with up lo show ?thesis by (simp only:)
qed

lemma expected_mismatches_sound:
  "m \<in> set (expected_mismatches cat name) \<Longrightarrow>
     item m = name \<and> current m = cat \<and> \<not> matches name cat \<and>
     first_other_match name cat = Some (suggested m)"
  by (auto simp: expected_mismatches_def split: if_splits option.splits)

lemma audit_categorization_key_error:
  assumes "\<exists>p \<in> set products. p ''Category'' = None \<or> p ''Product Name'' = None"
  shows "\<exists>k. audit_categorization products = Inl (KeyError k)"
proof -
  from assms obtain k where "group_products [] products = Inl (KeyError k)"
    using group_products_missing by blast
  then show ?thesis by (simp add: audit_categorization_def)
qed

lemma stable_partition_none:
  assumes "p \<in> set products" "p ''Product Name'' = Some VNone"
  shows "\<exists>(cat, items) \<in> set (stable_partition products). VNone \<in> set items"
proof -
  have n: "row_name p = VNone" using assms(2) by (simp add: row_name_def)
  have "row_category p \<in> set (first_appearance_order (map row_category products))"
    using assms(1) by (simp add: set_first_appearance_order)
  then have "(row_category p, members_of (row_category p) products)
      \<in> set (stable_partition products)"
    by (auto simp: stable_partition_def)
  moreover have "VNone \<in> set (members_of (row_category p) products)"
    using assms(1) n by (force simp: members_of_def)
  ultimately show ?thesis by blast
qed

lemma audit_categorization_attribute_error:
  assumes "\<forall>p \<in> set products. p ''Category'' \<noteq> None \<and> p ''Product Name'' \<noteq> None"
    and "\<exists>p \<in> set products. p ''Product Name'' = Some VNone"
  shows "audit_categorization products = Inl AttributeError"
proof -
  have g: "group_products [] products = Inr (stable_partition products)"
    using assms(1) by (rule group_products_stable_partition)
  from assms(2) have "\<exists>(cat, items) \<in> set (stable_partition products). VNone \<in> set items"
    using stable_partition_none by blast
  then have "audit_groups (stable_partition products) ([], []) = Inl AttributeError"
    by (rule audit_groups_none)
  with g show ?thesis by (simp add: audit_categorization_def)
qed

lemma stable_partition_typed:
  assumes "\<forall>p \<in> set products. \<exists>cat name.
      p ''Category'' = Some cat \<and> p ''Product Name'' = Some (VStr name)"
  shows "\<exists>groups. stable_partition products = lift_names groups \<and> distinct (map fst groups)"
proof -
  have "\<forall>(cat, items) \<in> set (stable_partition products). VNone \<notin> set items"
    using assms by (fastforce simp: stable_partition_def members_of_def row_name_def)
  then obtain groups where
    g: "stable_partition products = map (\<lambda>(cat, names). (cat, map VStr names)) groups"
    using groups_typed by blast
  have mf: "map fst (map (\<lambda>(cat, names). (cat, map VStr names)) groups) = map fst groups"
    by (induction groups) auto
  have "map fst (stable_partition products) = first_appearance_order (map row_category products)"
    by (rule stable_partition_keys)
  then have "map fst groups = first_appearance_order (map row_category products)"
    unfolding g mf .
  then have "distinct (map fst groups)"
    by (simp add: distinct_first_appearance_order)
  with g show ?thesis unfolding lift_names_def by blast
qed

lemma audit_categorization_ok:
  assumes "\<forall>p \<in> set products. \<exists>cat name.
      p ''Category'' = Some cat \<and> p ''Product Name'' = Some (VStr name)"
  shows "\<exists>groups. group_products [] products = Inr (lift_names groups)
     \<and> lift_names groups = stable_partition products
     \<and> distinct (map fst groups)
     \<and> audit_groups (lift_names groups) ([], []) =
         Inr (concat (map (\<lambda>(cat, names). concat (map (expected_mismatches cat) names)) groups),
              map (\<lambda>(cat, names). (cat, expected_score cat names)) groups)
     \<and> audit_categorization products =
         Inr (map (\<lambda>(cat, names). (cat, expected_score cat names)) groups,
              first_occurrences
                (concat (map (\<lambda>(cat, names). concat (map (expected_mismatches cat) names)) groups)))"
proof -
  from assms have keys: "\<forall>p \<in> set products. p ''Category'' \<noteq> None \<and> p ''Product Name'' \<noteq> None"
    by fastforce
  from assms obtain groups where
    g: "stable_partition products = lift_names groups" and d: "distinct (map fst groups)"
    using stable_partition_typed by blast
  have gp: "group_products [] products = Inr (lift_names groups)"
    using group_products_stable_partition [OF keys] g by simp
  have ag: "audit_groups (lift_names groups) ([], []) =
         Inr (concat (map (\<lambda>(cat, names). concat (map (expected_mismatches cat) names)) groups),
              map (\<lambda>(cat, names). (cat, expected_score cat names)) groups)"
    unfolding lift_names_def using d by (rule audit_groups_typed)
  have "audit_categorization products =
         Inr (map (\<lambda>(cat, names). (cat, expected_score cat names)) groups,
              first_occurrences
                (concat (map (\<lambda>(cat, names). concat (map (expected_mismatches cat) names)) groups)))"
    by (simp add: audit_categorization_def gp ag unique_loop_first_occurrences)
  with gp g d ag show ?thesis by auto
qed

lemma row_cases:
  "(\<exists>p \<in> set products. p ''Category'' = None \<or> p ''Product Name'' = None)
   \<or> ((\<forall>p \<in> set products. p ''Category'' \<noteq> None \<and> p ''Product Name'' \<noteq> None)
       \<and> (\<exists>p \<in> set products. p ''Product Name'' = Some VNone))
   \<or> (\<forall>p \<in> set products. \<exists>cat name.
        p ''Category'' = Some cat \<and> p ''Product Name'' = Some (VStr name))"
proof (cases "\<exists>p \<in> set products. p ''Category'' = None \<or> p ''Product Name'' = None")
  case True
  then show ?thesis by simp
next
  case keys: False
  show ?thesis
  proof (cases "\<exists>p \<in> set products. p ''Product Name'' = Some VNone")
    case True
    with keys show ?thesis by simp
  next
    case False
    have "\<exists>cat name. p ''Category'' = Some cat \<and> p ''Product Name'' = Some (VStr name)"
      if "p \<in> set products" for p
    proof -
      from keys that obtain cat v where
        "p ''Category'' = Some cat" "p ''Product Name'' = Some v" by auto
      moreover from False that have "p ''Product Name'' \<noteq> Some VNone" by simp
      ultimately show ?thesis by (cases v) auto
    qed
    then show ?thesis by blast
  qed
qed

lemma audit_categorization_Inr:
  assumes "audit_categorization products = Inr res"
  shows "\<forall>p \<in> set products. \<exists>cat name.
      p ''Category'' = Some cat \<and> p ''Product Name'' = Some (VStr name)"
  using row_cases [of products] assms
    audit_categorization_key_error [of products]
    audit_categorization_attribute_error [of products]
  by auto

subsection \<open>Mismatch records\<close>

lemma mismatches_sound:
  assumes "m \<in> set (concat (map (\<lambda>(cat, names). concat (map (expected_mismatches cat) names)) groups))"
  shows "\<not> matches (item m) (current m)
     \<and> first_other_match (item m) (current m) = Some (suggested m)
     \<and> (\<exists>names. (current m, names) \<in> set groups \<and> item m \<in> set names)"
proof -
  from assms obtain cat names name where
    g: "(cat, names) \<in> set groups" and n: "name \<in> set names"
    and m: "m \<in> set (expected_mismatches cat name)"
    by auto
  from m have "item m = name \<and> current m = cat \<and> \<not> matches name cat \<and>
     first_other_match name cat = Some (suggested m)"
    by (rule expected_mismatches_sound)
  with g n show ?thesis by auto
qed

lemma find_map_index:
  "find P (map f xs) = Some y \<longleftrightarrow>
   (\<exists>i < length xs. y = f (xs ! i) \<and> P (f (xs ! i)) \<and> (\<forall>j < i. \<not> P (f (xs ! j))))"
proof
  assume "find P (map f xs) = Some y"
  then obtain i where i: "i < length (map f xs)" and p: "P (map f xs ! i)"
    and y: "y = map f xs ! i" and first: "\<forall>j < i. \<not> P (map f xs ! j)"
    unfolding find_Some_iff by blast
  from i have il: "i < length xs" by simp
  have "\<not> P (f (xs ! j))" if "j < i" for j
  proof -
    from that il have "j < length xs" by simp
    then have "map f xs ! j = f (xs ! j)" by (rule nth_map)
    moreover from first that have "\<not> P (map f xs ! j)" by blast
    ultimately show ?thesis by simp
  qed
  with il p y show "\<exists>i < length xs. y = f (xs ! i) \<and> P (f (xs ! i)) \<and> (\<forall>j < i. \<not> P (f (xs ! j)))"
    by (auto simp: nth_map)
next
  assume "\<exists>i < length xs. y = f (xs ! i) \<and> P (f (xs ! i)) \<and> (\<forall>j < i. \<not> P (f (xs ! j)))"
  then obtain i where il: "i < length xs" and y: "y = f (xs ! i)" and p: "P (f (xs ! i))"
    and first: "\<forall>j < i. \<not> P (f (xs ! j))"
    by blast
  have "\<not> P (map f xs ! j)" if "j < i" for j
  proof -
    from that il have "j < length xs" by simp
    then have "map f xs ! j = f (xs ! j)" by (rule nth_map)
    moreover from first that have "\<not> P (f (xs ! j))" by blast
    ultimately show ?thesis by simp
  qed
  with il y p have "i < length (map f xs) \<and> P (map f xs ! i) \<and> y = map f xs ! i
      \<and> (\<forall>j < i. \<not> P (map f xs ! j))"
    by (simp add: nth_map)
  then show "find P (map f xs) = Some y"
    unfolding find_Some_iff by blast
qed

lemma first_other_match_index:
  "first_other_match name cat = Some s \<longleftrightarrow>
   (\<exists>i < length rules. s = fst (rules ! i) \<and> VStr (fst (rules ! i)) \<noteq> cat
       \<and> matches name (VStr (fst (rules ! i)))
       \<and> (\<forall>j < i. VStr (fst (rules ! j)) = cat \<or> \<not> matches name (VStr (fst (rules ! j)))))"
  unfolding first_other_match_def find_map_index by simp

lemma first_other_match_None:
  "first_other_match name cat = None \<longleftrightarrow>
   \<not> (\<exists>c \<in> set (map fst rules). VStr c \<noteq> cat \<and> matches name (VStr c))"
  unfolding first_other_match_def find_None_iff by simp

text \<open>
  C1. On groups whose names are strings, the audit loop returns, and \<^verbatim>\<open>mismatches\<close> is
  the concatenation, group by group and item by item, of \<open>expected_mismatches\<close>; the
  inner loop adds to \<^verbatim>\<open>correct_count\<close> the number of names that match their own
  category. An item contributes a record exactly when its name does not match its own
  category and matches some other category of the table; the suggested category is then
  the table entry of least position that differs from the current category and matches;
  an item that matches no category contributes no record and leaves \<^verbatim>\<open>correct_count\<close> as
  it was.
\<close>

theorem mismatch_iff_first_foreign_match:
  "audit_groups (lift_names groups) ([], []) =
     Inr (concat (map (\<lambda>(cat, names). concat (map (expected_mismatches cat) names)) groups),
          fold (\<lambda>(cat, names). dict_set cat (expected_score cat names)) groups [])
   \<and> audit_items cat (rules_get cat) (map VStr names) (n, ms) =
     Inr (n + length (filter (\<lambda>name. matches name cat) names),
          ms @ concat (map (expected_mismatches cat) names))
   \<and> (expected_mismatches cat name \<noteq> [] \<longleftrightarrow>
        \<not> matches name cat \<and> (\<exists>c \<in> set (map fst rules). VStr c \<noteq> cat \<and> matches name (VStr c)))
   \<and> (expected_mismatches cat name \<noteq> [] \<longrightarrow>
        (\<exists>i < length rules.
            expected_mismatches cat name =
              [\<lparr>item = name, current = cat, suggested = fst (rules ! i)\<rparr>]
          \<and> VStr (fst (rules ! i)) \<noteq> cat
          \<and> matches name (VStr (fst (rules ! i)))
          \<and> (\<forall>j < i. VStr (fst (rules ! j)) = cat \<or> \<not> matches name (VStr (fst (rules ! j))))))
   \<and> (\<not> matches name cat \<and> (\<forall>c \<in> set (map fst rules). \<not> matches name (VStr c)) \<longrightarrow>
        expected_mismatches cat name = []
        \<and> audit_items cat (rules_get cat) (map VStr [name]) (n, ms) = Inr (n, ms))"
proof (intro conjI)
  show "audit_groups (lift_names groups) ([], []) =
     Inr (concat (map (\<lambda>(cat, names). concat (map (expected_mismatches cat) names)) groups),
          fold (\<lambda>(cat, names). dict_set cat (expected_score cat names)) groups [])"
    unfolding lift_names_def using audit_groups_closed [of groups "[]" "[]"] by simp
  show "audit_items cat (rules_get cat) (map VStr names) (n, ms) =
     Inr (n + length (filter (\<lambda>name. matches name cat) names),
          ms @ concat (map (expected_mismatches cat) names))"
    by (rule audit_items_closed)
  show iff: "expected_mismatches cat name \<noteq> [] \<longleftrightarrow>
        \<not> matches name cat \<and> (\<exists>c \<in> set (map fst rules). VStr c \<noteq> cat \<and> matches name (VStr c))"
  proof (cases "first_other_match name cat")
    case None
    then show ?thesis
      using first_other_match_None [of name cat] by (simp add: expected_mismatches_def)
  next
    case (Some s)
    then have "first_other_match name cat \<noteq> None" by simp
    then have "\<exists>c \<in> set (map fst rules). VStr c \<noteq> cat \<and> matches name (VStr c)"
      unfolding first_other_match_None by simp
    with Some show ?thesis by (simp add: expected_mismatches_def)
  qed
  show "expected_mismatches cat name \<noteq> [] \<longrightarrow>
        (\<exists>i < length rules.
            expected_mismatches cat name =
              [\<lparr>item = name, current = cat, suggested = fst (rules ! i)\<rparr>]
          \<and> VStr (fst (rules ! i)) \<noteq> cat
          \<and> matches name (VStr (fst (rules ! i)))
          \<and> (\<forall>j < i. VStr (fst (rules ! j)) = cat \<or> \<not> matches name (VStr (fst (rules ! j)))))"
  proof
    assume ne: "expected_mismatches cat name \<noteq> []"
    then obtain s where s: "first_other_match name cat = Some s"
      and e: "expected_mismatches cat name = [\<lparr>item = name, current = cat, suggested = s\<rparr>]"
      by (auto simp: expected_mismatches_def split: if_splits option.splits)
    from s obtain i where "i < length rules" "s = fst (rules ! i)"
      "VStr (fst (rules ! i)) \<noteq> cat" "matches name (VStr (fst (rules ! i)))"
      "\<forall>j < i. VStr (fst (rules ! j)) = cat \<or> \<not> matches name (VStr (fst (rules ! j)))"
      unfolding first_other_match_index by blast
    with e show "\<exists>i < length rules.
            expected_mismatches cat name =
              [\<lparr>item = name, current = cat, suggested = fst (rules ! i)\<rparr>]
          \<and> VStr (fst (rules ! i)) \<noteq> cat
          \<and> matches name (VStr (fst (rules ! i)))
          \<and> (\<forall>j < i. VStr (fst (rules ! j)) = cat \<or> \<not> matches name (VStr (fst (rules ! j))))"
      by blast
  qed
  show "\<not> matches name cat \<and> (\<forall>c \<in> set (map fst rules). \<not> matches name (VStr c)) \<longrightarrow>
        expected_mismatches cat name = []
        \<and> audit_items cat (rules_get cat) (map VStr [name]) (n, ms) = Inr (n, ms)"
  proof
    assume a: "\<not> matches name cat \<and> (\<forall>c \<in> set (map fst rules). \<not> matches name (VStr c))"
    with iff have e: "expected_mismatches cat name = []" by blast
    from a have "filter (\<lambda>name. matches name cat) [name] = []" by simp
    with e have "audit_items cat (rules_get cat) (map VStr [name]) (n, ms) = Inr (n, ms)"
      unfolding audit_items_closed by simp
    with e show "expected_mismatches cat name = []
        \<and> audit_items cat (rules_get cat) (map VStr [name]) (n, ms) = Inr (n, ms)"
      by (rule conjI)
  qed
qed

text \<open>The statement on two groups: a flagged item, a counted item, an item without any keyword, and a category without table entry.\<close>

theorem mismatch_iff_first_foreign_match_witness:
  "audit_groups
     (lift_names [(VStr ''Beverages'', [''Face Wash'', ''Green Tea'', ''Gadget'']),
                  (VStr ''Toys'', [''Chocolate Milkshake''])]) ([], []) =
     Inr ([\<lparr>item = ''Face Wash'', current = VStr ''Beverages'', suggested = ''Beauty & Hygiene''\<rparr>,
           \<lparr>item = ''Chocolate Milkshake'', current = VStr ''Toys'', suggested = ''Beverages''\<rparr>],
          [(VStr ''Beverages'', 100 / 3), (VStr ''Toys'', 0)])
   \<and> expected_mismatches (VStr ''Beverages'') ''Face Wash'' \<noteq> []
   \<and> (\<not> matches ''Face Wash'' (VStr ''Beverages'') \<and>
        (\<exists>c \<in> set (map fst rules). VStr c \<noteq> VStr ''Beverages'' \<and> matches ''Face Wash'' (VStr c)))
   \<and> (\<exists>i < length rules.
            expected_mismatches (VStr ''Beverages'') ''Face Wash'' =
              [\<lparr>item = ''Face Wash'', current = VStr ''Beverages'', suggested = fst (rules ! i)\<rparr>])
   \<and> \<not> matches ''Gadget'' (VStr ''Beverages'')
   \<and> \<not> (\<exists>c \<in> set (map fst rules). matches ''Gadget'' (VStr c))
   \<and> expected_mismatches (VStr ''Beverages'') ''Gadget'' = []
   \<and> audit_items (VStr ''Beverages'') (rules_get (VStr ''Beverages'')) (map VStr [''Gadget''])
        (0, []) = Inr (0, [])"
proof -
  let ?groups = "[(VStr ''Beverages'', [''Face Wash'', ''Green Tea'', ''Gadget'']),
                  (VStr ''Toys'', [''Chocolate Milkshake''])]"
  note face = mismatch_iff_first_foreign_match
    [of ?groups "VStr ''Beverages''" "[]" 0 "[]" "''Face Wash''"]
  note gadget = mismatch_iff_first_foreign_match
    [of "[]" "VStr ''Beverages''" "[]" 0 "[]" "''Gadget''"]
  have r: "concat (map (\<lambda>(cat, names). concat (map (expected_mismatches cat) names)) ?groups) =
      [\<lparr>item = ''Face Wash'', current = VStr ''Beverages'', suggested = ''Beauty & Hygiene''\<rparr>,
       \<lparr>item = ''Chocolate Milkshake'', current = VStr ''Toys'', suggested = ''Beverages''\<rparr>]"
    by code_simp
  have h: "fold (\<lambda>(cat, names). dict_set cat (expected_score cat names)) ?groups [] =
      [(VStr ''Beverages'', 100 / 3), (VStr ''Toys'', 0)]"
    by code_simp
  have a: "expected_mismatches (VStr ''Beverages'') ''Face Wash'' \<noteq> []"
    by code_simp
  have b: "\<not> matches ''Gadget'' (VStr ''Beverages'')
      \<and> (\<forall>c \<in> set (map fst rules). \<not> matches ''Gadget'' (VStr c))"
    by code_simp
  have 1: "audit_groups (lift_names ?groups) ([], []) =
     Inr ([\<lparr>item = ''Face Wash'', current = VStr ''Beverages'', suggested = ''Beauty & Hygiene''\<rparr>,
           \<lparr>item = ''Chocolate Milkshake'', current = VStr ''Toys'', suggested = ''Beverages''\<rparr>],
          [(VStr ''Beverages'', 100 / 3), (VStr ''Toys'', 0)])"
    using face [THEN conjunct1] unfolding r h .
  have 2: "\<not> matches ''Face Wash'' (VStr ''Beverages'') \<and>
        (\<exists>c \<in> set (map fst rules). VStr c \<noteq> VStr ''Beverages'' \<and> matches ''Face Wash'' (VStr c))"
    using face [THEN conjunct2, THEN conjunct2, THEN conjunct1] a by (rule iffD1)
  have "\<exists>i < length rules.
            expected_mismatches (VStr ''Beverages'') ''Face Wash'' =
              [\<lparr>item = ''Face Wash'', current = VStr ''Beverages'', suggested = fst (rules ! i)\<rparr>]
          \<and> VStr (fst (rules ! i)) \<noteq> VStr ''Beverages''
          \<and> matches ''Face Wash'' (VStr (fst (rules ! i)))
          \<and> (\<forall>j < i. VStr (fst (rules ! j)) = VStr ''Beverages'' \<or>
                \<not> matches ''Face Wash'' (VStr (fst (rules ! j))))"
    using face [THEN conjunct2, THEN conjunct2, THEN conjunct2, THEN conjunct1] a by (rule mp)
  then have 3: "\<exists>i < length rules.
            expected_mismatches (VStr ''Beverages'') ''Face Wash'' =
              [\<lparr>item = ''Face Wash'', current = VStr ''Beverages'', suggested = fst (rules ! i)\<rparr>]"
    by blast
  have 4: "expected_mismatches (VStr ''Beverages'') ''Gadget'' = []
      \<and> audit_items (VStr ''Beverages'') (rules_get (VStr ''Beverages'')) (map VStr [''Gadget''])
           (0, []) = Inr (0, [])"
    using gadget [THEN conjunct2, THEN conjunct2, THEN conjunct2, THEN conjunct2] b by (rule mp)
  from b have b1: "\<not> matches ''Gadget'' (VStr ''Beverages'')"
    and b2: "\<not> (\<exists>c \<in> set (map fst rules). matches ''Gadget'' (VStr c))"
    by simp_all
  show ?thesis
    by (rule conjI [OF 1 conjI [OF a conjI [OF 2 conjI [OF 3 conjI [OF b1 conjI [OF b2 4]]]]]])
qed

subsection \<open>Items that match their own category\<close>

text \<open>
  C2. Let the name match its own category (whatever other categories it matches as
  well). In the loop over the items of the category, the item adds one to
  \<^verbatim>\<open>correct_count\<close> and nothing to \<^verbatim>\<open>mismatches\<close>: with the item in the list, the loop
  returns the count of the list without it plus one, and the same records. No record
  with this name and this current category is in \<^verbatim>\<open>mismatches\<close> after the audit loop,
  nor in the final list of any catalog.
\<close>

theorem self_match_counted_never_flagged:
  assumes "matches name cat"
  shows "(\<exists>n' ms'.
            audit_items cat (rules_get cat) (map VStr (pre @ post)) (n, ms) = Inr (n', ms')
          \<and> audit_items cat (rules_get cat) (map VStr (pre @ name # post)) (n, ms) =
              Inr (n' + 1, ms'))
     \<and> (\<exists>ms' health.
            audit_groups (lift_names groups) ([], []) = Inr (ms', health)
          \<and> (\<forall>m \<in> set ms'. \<not> (item m = name \<and> current m = cat)))
     \<and> (\<forall>health um. audit_categorization products = Inr (health, um) \<longrightarrow>
            (\<forall>m \<in> set um. \<not> (item m = name \<and> current m = cat)))"
proof (intro conjI)
  have e: "expected_mismatches cat name = []"
    using assms by (simp add: expected_mismatches_def)
  have "audit_items cat (rules_get cat) (map VStr (pre @ name # post)) (n, ms) =
      Inr (n + length (filter (\<lambda>name. matches name cat) (pre @ post)) + 1,
           ms @ concat (map (expected_mismatches cat) (pre @ post)))"
    unfolding audit_items_closed using assms by (simp add: e)
  moreover have "audit_items cat (rules_get cat) (map VStr (pre @ post)) (n, ms) =
      Inr (n + length (filter (\<lambda>name. matches name cat) (pre @ post)),
           ms @ concat (map (expected_mismatches cat) (pre @ post)))"
    by (rule audit_items_closed)
  ultimately show "\<exists>n' ms'.
            audit_items cat (rules_get cat) (map VStr (pre @ post)) (n, ms) = Inr (n', ms')
          \<and> audit_items cat (rules_get cat) (map VStr (pre @ name # post)) (n, ms) =
              Inr (n' + 1, ms')"
    by blast
next
  let ?ms = "concat (map (\<lambda>(cat, names). concat (map (expected_mismatches cat) names)) groups)"
  have "audit_groups (lift_names groups) ([], []) =
      Inr (?ms, fold (\<lambda>(cat, names). dict_set cat (expected_score cat names)) groups [])"
    unfolding lift_names_def using audit_groups_closed [of groups "[]" "[]"] by simp
  moreover have "\<forall>m \<in> set ?ms. \<not> (item m = name \<and> current m = cat)"
    using assms mismatches_sound [of _ groups] by blast
  ultimately show "\<exists>ms' health.
            audit_groups (lift_names groups) ([], []) = Inr (ms', health)
          \<and> (\<forall>m \<in> set ms'. \<not> (item m = name \<and> current m = cat))"
    by blast
next
  show "\<forall>health um. audit_categorization products = Inr (health, um) \<longrightarrow>
            (\<forall>m \<in> set um. \<not> (item m = name \<and> current m = cat))"
  proof (intro allI impI ballI)
    fix health um m
    assume r: "audit_categorization products = Inr (health, um)" and m: "m \<in> set um"
    from r have "\<forall>p \<in> set products. \<exists>cat name.
        p ''Category'' = Some cat \<and> p ''Product Name'' = Some (VStr name)"
      by (rule audit_categorization_Inr)
    then obtain groups where "audit_categorization products =
         Inr (map (\<lambda>(cat, names). (cat, expected_score cat names)) groups,
              first_occurrences
                (concat (map (\<lambda>(cat, names). concat (map (expected_mismatches cat) names)) groups)))"
      using audit_categorization_ok by blast
    with r have "um = first_occurrences
        (concat (map (\<lambda>(cat, names). concat (map (expected_mismatches cat) names)) groups))"
      by simp
    with m first_occurrences_subset
    have "m \<in> set (concat (map (\<lambda>(cat, names). concat (map (expected_mismatches cat) names)) groups))"
      by blast
    then have "\<not> matches (item m) (current m)"
      using mismatches_sound by blast
    with assms show "\<not> (item m = name \<and> current m = cat)" by blast
  qed
qed

text \<open>
  The statement at a name that matches its own category (\<^verbatim>\<open>Milkshake\<close> under Beverages)
  and two others (\<^verbatim>\<open>Chocolate\<close>, \<^verbatim>\<open>Milk\<close>).
\<close>

theorem self_match_counted_never_flagged_witness:
  "matches ''Chocolate Milkshake'' (VStr ''Beverages'')
   \<and> matches ''Chocolate Milkshake'' (VStr ''Snacks & Branded Foods'')
   \<and> (\<exists>n' ms'.
        audit_items (VStr ''Beverages'') (rules_get (VStr ''Beverages''))
          (map VStr ([''Soap''] @ [''Cola''])) (0, []) = Inr (n', ms')
      \<and> audit_items (VStr ''Beverages'') (rules_get (VStr ''Beverages''))
          (map VStr ([''Soap''] @ ''Chocolate Milkshake'' # [''Cola''])) (0, []) = Inr (n' + 1, ms'))
   \<and> audit_categorization
        [mk_row (VStr ''Chocolate Milkshake'') (VStr ''Beverages''),
         mk_row (VStr ''Soap'') (VStr ''Beverages'')] =
       Inr ([(VStr ''Beverages'', 50)],
            [\<lparr>item = ''Soap'', current = VStr ''Beverages'', suggested = ''Beauty & Hygiene''\<rparr>])
   \<and> \<not> (\<exists>m \<in> set [\<lparr>item = ''Soap'', current = VStr ''Beverages'',
                         suggested = ''Beauty & Hygiene''\<rparr>].
          item m = ''Chocolate Milkshake'' \<and> current m = VStr ''Beverages'')"
proof -
  have a: "matches ''Chocolate Milkshake'' (VStr ''Beverages'')"
    by code_simp
  have b: "matches ''Chocolate Milkshake'' (VStr ''Snacks & Branded Foods'')"
    by code_simp
  note t = self_match_counted_never_flagged
    [OF a, of "[''Soap'']" "[''Cola'']" 0 "[]" "[]"
       "[mk_row (VStr ''Chocolate Milkshake'') (VStr ''Beverages''),
         mk_row (VStr ''Soap'') (VStr ''Beverages'')]"]
  have r: "audit_categorization
        [mk_row (VStr ''Chocolate Milkshake'') (VStr ''Beverages''),
         mk_row (VStr ''Soap'') (VStr ''Beverages'')] =
       Inr ([(VStr ''Beverages'', 50)],
            [\<lparr>item = ''Soap'', current = VStr ''Beverages'', suggested = ''Beauty & Hygiene''\<rparr>])"
    by code_simp
  have "\<forall>m \<in> set [\<lparr>item = ''Soap'', current = VStr ''Beverages'',
                      suggested = ''Beauty & Hygiene''\<rparr>].
          \<not> (item m = ''Chocolate Milkshake'' \<and> current m = VStr ''Beverages'')"
    using t [THEN conjunct2, THEN conjunct2, THEN spec, THEN spec, THEN mp, OF r] .
  then have e: "\<not> (\<exists>m \<in> set [\<lparr>item = ''Soap'', current = VStr ''Beverages'',
                         suggested = ''Beauty & Hygiene''\<rparr>].
          item m = ''Chocolate Milkshake'' \<and> current m = VStr ''Beverages'')"
    by blast
  show ?thesis
    by (rule conjI [OF a conjI [OF b conjI [OF t [THEN conjunct1] conjI [OF r e]]]])
qed

subsection \<open>Alignment score\<close>



subsection \<open>Score bounds\<close>

text \<open>
  C6. Whenever the function completes, every score in \<^verbatim>\<open>category_health\<close> lies between
  0 and 100. (Scores are exact rationals in the model.)
\<close>

theorem alignment_pct_bounds:
  assumes "audit_categorization products = Inr (category_health, unique_mismatches)"
  shows "\<forall>(cat, score) \<in> set category_health. 0 \<le> score \<and> score \<le> 100"
proof -
  from assms have "\<forall>p \<in> set products. \<exists>cat name.
      p ''Category'' = Some cat \<and> p ''Product Name'' = Some (VStr name)"
    by (rule audit_categorization_Inr)
  then obtain groups where "audit_categorization products =
         Inr (map (\<lambda>(cat, names). (cat, expected_score cat names)) groups,
              first_occurrences
                (concat (map (\<lambda>(cat, names). concat (map (expected_mismatches cat) names)) groups)))"
    using audit_categorization_ok by blast
  with assms have "category_health = map (\<lambda>(cat, names). (cat, expected_score cat names)) groups"
    by simp
  then show ?thesis
    using expected_score_bounds by auto
qed

text \<open>The statement on a catalog of three rows, with scores 0, 50 and 100 among them.\<close>

theorem alignment_pct_bounds_witness:
  "audit_categorization
     [mk_row (VStr ''Green Tea'') (VStr ''Beverages''),
      mk_row (VStr ''Soap'') (VStr ''Beverages''),
      mk_row (VStr ''Bread'') (VStr ''Bakery, Cakes & Dairy''),
      mk_row (VStr ''Bread'') (VStr ''Toys'')] =
     Inr ([(VStr ''Beverages'', 50), (VStr ''Bakery, Cakes & Dairy'', 100), (VStr ''Toys'', 0)],
          [\<lparr>item = ''Soap'', current = VStr ''Beverages'', suggested = ''Beauty & Hygiene''\<rparr>,
           \<lparr>item = ''Bread'', current = VStr ''Toys'', suggested = ''Bakery, Cakes & Dairy''\<rparr>])
   \<and> list_all (\<lambda>(cat, score). 0 \<le> score \<and> score \<le> 100)
        [(VStr ''Beverages'', 50 :: rat), (VStr ''Bakery, Cakes & Dairy'', 100), (VStr ''Toys'', 0)]"
proof -
  have r: "audit_categorization
     [mk_row (VStr ''Green Tea'') (VStr ''Beverages''),
      mk_row (VStr ''Soap'') (VStr ''Beverages''),
      mk_row (VStr ''Bread'') (VStr ''Bakery, Cakes & Dairy''),
      mk_row (VStr ''Bread'') (VStr ''Toys'')] =
     Inr ([(VStr ''Beverages'', 50), (VStr ''Bakery, Cakes & Dairy'', 100), (VStr ''Toys'', 0)],
          [\<lparr>item = ''Soap'', current = VStr ''Beverages'', suggested = ''Beauty & Hygiene''\<rparr>,
           \<lparr>item = ''Bread'', current = VStr ''Toys'', suggested = ''Bakery, Cakes & Dairy''\<rparr>])"
    by code_simp
  have "list_all (\<lambda>(cat, score). 0 \<le> score \<and> score \<le> 100)
        [(VStr ''Beverages'', 50 :: rat), (VStr ''Bakery, Cakes & Dairy'', 100), (VStr ''Toys'', 0)]"
    using alignment_pct_bounds [OF r] unfolding list_all_iff .
  with r show ?thesis by (rule conjI)
qed

subsection \<open>Removing repeated names\<close>

text \<open>
  C4. Whenever the function completes, no two entries of the final list have the same
  item name, and the final list consists of exactly those entries of \<^verbatim>\<open>mismatches\<close>
  whose name does not occur at an earlier position of \<^verbatim>\<open>mismatches\<close>, in the order of
  \<^verbatim>\<open>mismatches\<close>. That order is the traversal order: \<^verbatim>\<open>mismatches\<close> is the concatenation
  over the groups, taken in first-appearance order of their categories, of the records
  of their items in input order.
\<close>

theorem unique_mismatches_first_occurrence:
  assumes "audit_categorization products = Inr (category_health, unique_mismatches)"
  shows "distinct (map item unique_mismatches)
     \<and> (\<exists>groups mismatches.
           group_products [] products = Inr (lift_names groups)
         \<and> map fst groups = first_appearance_order (map row_category products)
         \<and> (\<forall>(cat, names) \<in> set groups.
               map VStr names = map row_name (filter (\<lambda>p. row_category p = cat) products))
         \<and> audit_groups (lift_names groups) ([], []) = Inr (mismatches, category_health)
         \<and> mismatches =
             concat (map (\<lambda>(cat, names). concat (map (expected_mismatches cat) names)) groups)
         \<and> unique_mismatches =
             map (nth mismatches)
               (filter (\<lambda>i. item (mismatches ! i) \<notin> item ` set (take i mismatches))
                  [0..<length mismatches]))"
proof -
  from assms have "\<forall>p \<in> set products. \<exists>cat name.
      p ''Category'' = Some cat \<and> p ''Product Name'' = Some (VStr name)"
    by (rule audit_categorization_Inr)
  then obtain groups where gp: "group_products [] products = Inr (lift_names groups)"
    and sp: "lift_names groups = stable_partition products"
    and ag: "audit_groups (lift_names groups) ([], []) =
         Inr (concat (map (\<lambda>(cat, names). concat (map (expected_mismatches cat) names)) groups),
              map (\<lambda>(cat, names). (cat, expected_score cat names)) groups)"
    and ac: "audit_categorization products =
         Inr (map (\<lambda>(cat, names). (cat, expected_score cat names)) groups,
              first_occurrences
                (concat (map (\<lambda>(cat, names). concat (map (expected_mismatches cat) names)) groups)))"
    using audit_categorization_ok by blast
  let ?ms = "concat (map (\<lambda>(cat, names). concat (map (expected_mismatches cat) names)) groups)"
  from ac assms have h: "category_health = map (\<lambda>(cat, names). (cat, expected_score cat names)) groups"
    and u: "unique_mismatches = first_occurrences ?ms"
    by simp_all
  have d: "distinct (map item unique_mismatches)"
    unfolding u by (rule first_occurrences_distinct)
  have mf: "map fst (lift_names groups) = map fst groups"
    unfolding lift_names_def by (induction groups) auto
  have k: "map fst groups = first_appearance_order (map row_category products)"
    using stable_partition_keys [of products] unfolding sp [symmetric] mf .
  have mem: "\<forall>(cat, names) \<in> set groups.
      map VStr names = map row_name (filter (\<lambda>p. row_category p = cat) products)"
  proof (intro ballI, clarify)
    fix cat names assume "(cat, names) \<in> set groups"
    then have "(cat, map VStr names) \<in> set (lift_names groups)"
      unfolding lift_names_def by force
    then have "(cat, map VStr names) \<in> set (stable_partition products)"
      unfolding sp .
    then show "map VStr names = map row_name (filter (\<lambda>p. row_category p = cat) products)"
      by (auto simp: stable_partition_def members_of_def)
  qed
  have ag': "audit_groups (lift_names groups) ([], []) = Inr (?ms, category_health)"
    unfolding h by (rule ag)
  have u': "unique_mismatches =
      map (nth ?ms) (filter (\<lambda>i. item (?ms ! i) \<notin> item ` set (take i ?ms)) [0..<length ?ms])"
    unfolding u first_occurrences_def ..
  from gp k mem ag' u' have "\<exists>groups mismatches.
           group_products [] products = Inr (lift_names groups)
         \<and> map fst groups = first_appearance_order (map row_category products)
         \<and> (\<forall>(cat, names) \<in> set groups.
               map VStr names = map row_name (filter (\<lambda>p. row_category p = cat) products))
         \<and> audit_groups (lift_names groups) ([], []) = Inr (mismatches, category_health)
         \<and> mismatches =
             concat (map (\<lambda>(cat, names). concat (map (expected_mismatches cat) names)) groups)
         \<and> unique_mismatches =
             map (nth mismatches)
               (filter (\<lambda>i. item (mismatches ! i) \<notin> item ` set (take i mismatches))
                  [0..<length mismatches])"
    by blast
  with d show ?thesis by (rule conjI)
qed

text \<open>
  The statement on a catalog in which the name \<^verbatim>\<open>Soap\<close> is flagged under two categories
  and twice under the first: only the first record remains.
\<close>

theorem unique_mismatches_first_occurrence_witness:
  "audit_categorization
     [mk_row (VStr ''Soap'') (VStr ''Beverages''),
      mk_row (VStr ''Soap'') (VStr ''Baby Care''),
      mk_row (VStr ''Bread'') (VStr ''Beverages''),
      mk_row (VStr ''Soap'') (VStr ''Beverages'')] =
     Inr ([(VStr ''Beverages'', 0), (VStr ''Baby Care'', 0)],
          [\<lparr>item = ''Soap'', current = VStr ''Beverages'', suggested = ''Beauty & Hygiene''\<rparr>,
           \<lparr>item = ''Bread'', current = VStr ''Beverages'', suggested = ''Bakery, Cakes & Dairy''\<rparr>])
   \<and> distinct (map item
        [\<lparr>item = ''Soap'', current = VStr ''Beverages'', suggested = ''Beauty & Hygiene''\<rparr>,
         \<lparr>item = ''Bread'', current = VStr ''Beverages'', suggested = ''Bakery, Cakes & Dairy''\<rparr>])
   \<and> (\<exists>groups mismatches.
         audit_groups (lift_names groups) ([], []) =
           Inr (mismatches, [(VStr ''Beverages'', 0), (VStr ''Baby Care'', 0)])
       \<and> [\<lparr>item = ''Soap'', current = VStr ''Beverages'', suggested = ''Beauty & Hygiene''\<rparr>,
           \<lparr>item = ''Bread'', current = VStr ''Beverages'', suggested = ''Bakery, Cakes & Dairy''\<rparr>] =
             map (nth mismatches)
               (filter (\<lambda>i. item (mismatches ! i) \<notin> item ` set (take i mismatches))
                  [0..<length mismatches]))"
proof -
  have r: "audit_categorization
     [mk_row (VStr ''Soap'') (VStr ''Beverages''),
      mk_row (VStr ''Soap'') (VStr ''Baby Care''),
      mk_row (VStr ''Bread'') (VStr ''Beverages''),
      mk_row (VStr ''Soap'') (VStr ''Beverages'')] =
     Inr ([(VStr ''Beverages'', 0), (VStr ''Baby Care'', 0)],
          [\<lparr>item = ''Soap'', current = VStr ''Beverages'', suggested = ''Beauty & Hygiene''\<rparr>,
           \<lparr>item = ''Bread'', current = VStr ''Beverages'', suggested = ''Bakery, Cakes & Dairy''\<rparr>])"
    by code_simp
  note t = unique_mismatches_first_occurrence [OF r]
  from t [THEN conjunct2] obtain groups mismatches where
    a: "audit_groups (lift_names groups) ([], []) =
           Inr (mismatches, [(VStr ''Beverages'', 0), (VStr ''Baby Care'', 0)])"
    and b: "[\<lparr>item = ''Soap'', current = VStr ''Beverages'', suggested = ''Beauty & Hygiene''\<rparr>,
           \<lparr>item = ''Bread'', current = VStr ''Beverages'', suggested = ''Bakery, Cakes & Dairy''\<rparr>] =
             map (nth mismatches)
               (filter (\<lambda>i. item (mismatches ! i) \<notin> item ` set (take i mismatches))
                  [0..<length mismatches])"
    by (elim exE conjE) (rule that; assumption)
  have e: "\<exists>groups mismatches.
         audit_groups (lift_names groups) ([], []) =
           Inr (mismatches, [(VStr ''Beverages'', 0), (VStr ''Baby Care'', 0)])
       \<and> [\<lparr>item = ''Soap'', current = VStr ''Beverages'', suggested = ''Beauty & Hygiene''\<rparr>,
           \<lparr>item = ''Bread'', current = VStr ''Beverages'', suggested = ''Bakery, Cakes & Dairy''\<rparr>] =
             map (nth mismatches)
               (filter (\<lambda>i. item (mismatches ! i) \<notin> item ` set (take i mismatches))
                  [0..<length mismatches])"
    by (intro exI conjI) (rule a, rule b)
  show ?thesis
    by (rule conjI [OF r conjI [OF t [THEN conjunct1] e]])
qed

subsection \<open>Categories without a table entry\<close>

lemma find_skip_irrelevant:
  assumes "\<forall>c \<in> set cs. VStr c \<noteq> cat"
  shows "find (\<lambda>c. VStr c \<noteq> cat \<and> P c) cs = find P cs"
  using assms by (induction cs) auto

text \<open>
  C10. The lookup of line 44 compares the category with the table keys as they are
  written: the lower-cased spelling of a table key has no entry although the key itself
  has one. For a category that is not literally a key (or is \<^verbatim>\<open>None\<close>) the keyword list
  is empty and no name matches it; the loop over its items leaves \<^verbatim>\<open>correct_count\<close>
  unchanged and appends, for each item in turn, the record suggesting the first category
  of the whole table that matches the name (nothing when none does); its score is 0.
\<close>

theorem unknown_category_never_correct:
  assumes "\<forall>c. cat = VStr c \<longrightarrow> c \<notin> set (map fst rules)"
  shows "rules_get cat = []
     \<and> (\<forall>name. \<not> matches name cat)
     \<and> audit_items cat (rules_get cat) (map VStr names) (n, ms) =
         Inr (n, ms @ concat (map (\<lambda>name.
                  case find (\<lambda>c. matches name (VStr c)) (map fst rules) of
                    None \<Rightarrow> []
                  | Some s \<Rightarrow> [\<lparr>item = name, current = cat, suggested = s\<rparr>]) names))
     \<and> (\<exists>ms'. audit_groups [(cat, map VStr names)] ([], []) = Inr (ms', [(cat, 0)]))
     \<and> (\<forall>c \<in> set (map fst rules).
          rules_get (VStr c) \<noteq> [] \<and> lower c \<noteq> c \<and> rules_get (VStr (lower c)) = [])"
proof (intro conjI)
  show g: "rules_get cat = []"
  proof (cases cat)
    case VNone
    then show ?thesis by simp
  next
    case (VStr c)
    with assms have "c \<notin> fst ` set rules" by simp
    then have "rules_get (VStr c) = []" by (rule rules_get_unknown)
    with VStr show ?thesis by simp
  qed
  then show m: "\<forall>name. \<not> matches name cat"
    by (simp add: matches_def)
  have skip: "\<forall>c \<in> set (map fst rules). VStr c \<noteq> cat"
    using assms by auto
  have e: "expected_mismatches cat =
      (\<lambda>name. case find (\<lambda>c. matches name (VStr c)) (map fst rules) of
                    None \<Rightarrow> []
                  | Some s \<Rightarrow> [\<lparr>item = name, current = cat, suggested = s\<rparr>])"
    using m find_skip_irrelevant [OF skip]
    by (simp add: expected_mismatches_def first_other_match_def fun_eq_iff)
  have f: "filter (\<lambda>name. matches name cat) names = []"
    using m by simp
  show "audit_items cat (rules_get cat) (map VStr names) (n, ms) =
         Inr (n, ms @ concat (map (\<lambda>name.
                  case find (\<lambda>c. matches name (VStr c)) (map fst rules) of
                    None \<Rightarrow> []
                  | Some s \<Rightarrow> [\<lparr>item = name, current = cat, suggested = s\<rparr>]) names))"
    unfolding audit_items_closed f e by simp
  have "expected_score cat names = 0"
    by (simp add: expected_score_def f)
  then have "audit_groups (map (\<lambda>(cat, names). (cat, map VStr names)) [(cat, names)]) ([], []) =
      Inr (concat (map (expected_mismatches cat) names), [(cat, 0)])"
    unfolding audit_groups_closed by simp
  then show "\<exists>ms'. audit_groups [(cat, map VStr names)] ([], []) = Inr (ms', [(cat, 0)])"
    by simp
  show "\<forall>c \<in> set (map fst rules).
          rules_get (VStr c) \<noteq> [] \<and> lower c \<noteq> c \<and> rules_get (VStr (lower c)) = []"
    by code_simp
qed

text \<open>
  The statement at the category \<^verbatim>\<open>beverages\<close>, which differs from the key \<^verbatim>\<open>Beverages\<close> in
  case only: \<^verbatim>\<open>Green Tea\<close> is not counted and is suggested for \<^verbatim>\<open>Beverages\<close>.
\<close>

theorem unknown_category_never_correct_witness:
  "''beverages'' \<notin> set (map fst rules)
   \<and> lower ''Beverages'' = ''beverages''
   \<and> rules_get (VStr ''beverages'') = []
   \<and> rules_get (VStr ''Beverages'') \<noteq> []
   \<and> audit_items (VStr ''beverages'') (rules_get (VStr ''beverages''))
        (map VStr [''Green Tea'', ''Gadget'']) (0, []) =
       Inr (0, [\<lparr>item = ''Green Tea'', current = VStr ''beverages'', suggested = ''Beverages''\<rparr>])
   \<and> (\<exists>ms'. audit_groups [(VStr ''beverages'', map VStr [''Green Tea'', ''Gadget''])] ([], []) =
        Inr (ms', [(VStr ''beverages'', 0)]))"
proof -
  have n: "''beverages'' \<notin> set (map fst rules)" by code_simp
  then have h: "\<forall>c. VStr ''beverages'' = VStr c \<longrightarrow> c \<notin> set (map fst rules)" by simp
  note t = unknown_category_never_correct [OF h, of "[''Green Tea'', ''Gadget'']" 0 "[]"]
  have l: "lower ''Beverages'' = ''beverages''" by code_simp
  have k: "''Beverages'' \<in> set (map fst rules)" by code_simp
  have e: "[] @ concat (map (\<lambda>name.
                  case find (\<lambda>c. matches name (VStr c)) (map fst rules) of
                    None \<Rightarrow> []
                  | Some s \<Rightarrow> [\<lparr>item = name, current = VStr ''beverages'', suggested = s\<rparr>])
              [''Green Tea'', ''Gadget'']) =
      [\<lparr>item = ''Green Tea'', current = VStr ''beverages'', suggested = ''Beverages''\<rparr>]"
    by code_simp
  have 1: "rules_get (VStr ''beverages'') = []"
    by (rule t [THEN conjunct1])
  have 2: "rules_get (VStr ''Beverages'') \<noteq> []"
    using t [THEN conjunct2, THEN conjunct2, THEN conjunct2, THEN conjunct2] k by blast
  have 3: "audit_items (VStr ''beverages'') (rules_get (VStr ''beverages''))
        (map VStr [''Green Tea'', ''Gadget'']) (0, []) =
       Inr (0, [\<lparr>item = ''Green Tea'', current = VStr ''beverages'', suggested = ''Beverages''\<rparr>])"
    using t [THEN conjunct2, THEN conjunct2, THEN conjunct1] unfolding e .
  have 4: "\<exists>ms'. audit_groups [(VStr ''beverages'', map VStr [''Green Tea'', ''Gadget''])] ([], []) =
        Inr (ms', [(VStr ''beverages'', 0)])"
    by (rule t [THEN conjunct2, THEN conjunct2, THEN conjunct2, THEN conjunct1])
  show ?thesis
    by (rule conjI [OF n conjI [OF l conjI [OF 1 conjI [OF 2 conjI [OF 3 4]]]]])
qed

subsection \<open>Failure on malformed rows\<close>

text \<open>
  C8 as stated fails on the code. Under the header \<^verbatim>\<open>Product Name,Category\<close>, the line
  \<^verbatim>\<open>Green Tea\<close> has no category cell, and its row reaches the function with \<^verbatim>\<open>None\<close> as
  \<^verbatim>\<open>Category\<close>. The function does not fail on it: the row is grouped under the key
  \<^verbatim>\<open>None\<close>, which has no rules, and a score and a mismatch are produced.
\<close>

theorem missing_category_value_counterexample:
  "audit_categorization [dict_row [''Product Name'', ''Category''] [''Green Tea'']] =
     Inr ([(VNone, 0)],
          [\<lparr>item = ''Green Tea'', current = VNone, suggested = ''Beverages''\<rparr>])"
  by code_simp

text \<open>
  C8, as amended. The function raises, and so yields neither scores nor mismatches,
  exactly when some row has no \<^verbatim>\<open>Category\<close> key, no \<^verbatim>\<open>Product Name\<close> key, or \<^verbatim>\<open>None\<close> as
  its product name: a missing key raises \<^verbatim>\<open>KeyError\<close> in the grouping loop, and with all
  keys present a \<^verbatim>\<open>None\<close> name raises \<^verbatim>\<open>AttributeError\<close> at \<^verbatim>\<open>name.lower()\<close>. A row whose
  category is \<^verbatim>\<open>None\<close> is not among the causes.
\<close>

theorem audit_fails_iff_key_or_name_missing:
  "((\<exists>e. audit_categorization products = Inl e) \<longleftrightarrow>
      (\<exists>p \<in> set products.
          p ''Category'' = None \<or> p ''Product Name'' = None \<or> p ''Product Name'' = Some VNone))
   \<and> ((\<exists>p \<in> set products. p ''Category'' = None \<or> p ''Product Name'' = None) \<longrightarrow>
        (\<exists>k. audit_categorization products = Inl (KeyError k)))
   \<and> ((\<forall>p \<in> set products. p ''Category'' \<noteq> None \<and> p ''Product Name'' \<noteq> None) \<and>
        (\<exists>p \<in> set products. p ''Product Name'' = Some VNone) \<longrightarrow>
        audit_categorization products = Inl AttributeError)"
proof (intro conjI impI)
  assume "\<exists>p \<in> set products. p ''Category'' = None \<or> p ''Product Name'' = None"
  then show "\<exists>k. audit_categorization products = Inl (KeyError k)"
    by (rule audit_categorization_key_error)
next
  assume "(\<forall>p \<in> set products. p ''Category'' \<noteq> None \<and> p ''Product Name'' \<noteq> None) \<and>
        (\<exists>p \<in> set products. p ''Product Name'' = Some VNone)"
  then show "audit_categorization products = Inl AttributeError"
    using audit_categorization_attribute_error by blast
next
  show "(\<exists>e. audit_categorization products = Inl e) \<longleftrightarrow>
      (\<exists>p \<in> set products.
          p ''Category'' = None \<or> p ''Product Name'' = None \<or> p ''Product Name'' = Some VNone)"
  proof
    assume "\<exists>e. audit_categorization products = Inl e"
    then obtain e where e: "audit_categorization products = Inl e" ..
    show "\<exists>p \<in> set products.
          p ''Category'' = None \<or> p ''Product Name'' = None \<or> p ''Product Name'' = Some VNone"
    proof (rule ccontr)
      assume "\<not> (\<exists>p \<in> set products.
          p ''Category'' = None \<or> p ''Product Name'' = None \<or> p ''Product Name'' = Some VNone)"
      with row_cases [of products] have "\<forall>p \<in> set products. \<exists>cat name.
          p ''Category'' = Some cat \<and> p ''Product Name'' = Some (VStr name)"
        by blast
      then obtain res where "audit_categorization products = Inr res"
        using audit_categorization_ok by blast
      with e show False by simp
    qed
  next
    assume a: "\<exists>p \<in> set products.
          p ''Category'' = None \<or> p ''Product Name'' = None \<or> p ''Product Name'' = Some VNone"
    show "\<exists>e. audit_categorization products = Inl e"
    proof (cases "\<exists>p \<in> set products. p ''Category'' = None \<or> p ''Product Name'' = None")
      case True
      then show ?thesis using audit_categorization_key_error by blast
    next
      case False
      with a have "(\<forall>p \<in> set products. p ''Category'' \<noteq> None \<and> p ''Product Name'' \<noteq> None)"
        and "\<exists>p \<in> set products. p ''Product Name'' = Some VNone"
        by auto
      then have "audit_categorization products = Inl AttributeError"
        by (rule audit_categorization_attribute_error)
      then show ?thesis by blast
    qed
  qed
qed

text \<open>
  The statement on a file whose header has no \<^verbatim>\<open>Category\<close> column, and on a file under the
  header \<^verbatim>\<open>Category,Product Name\<close> whose second line has no name cell.
\<close>

theorem audit_fails_iff_key_or_name_missing_witness:
  "(\<exists>p \<in> set [dict_row [''Product Name''] [''Green Tea''], dict_row [''Product Name''] [''Soap'']].
      p ''Category'' = None \<or> p ''Product Name'' = None)
   \<and> (\<exists>k. audit_categorization
          [dict_row [''Product Name''] [''Green Tea''], dict_row [''Product Name''] [''Soap'']] =
          Inl (KeyError k))
   \<and> (\<exists>p \<in> set [dict_row [''Category'', ''Product Name''] [''Beverages'', ''Green Tea''],
                 dict_row [''Category'', ''Product Name''] [''Beverages'']].
          p ''Product Name'' = Some VNone)
   \<and> audit_categorization
        [dict_row [''Category'', ''Product Name''] [''Beverages'', ''Green Tea''],
         dict_row [''Category'', ''Product Name''] [''Beverages'']] = Inl AttributeError"
proof -
  let ?a = "[dict_row [''Product Name''] [''Green Tea''], dict_row [''Product Name''] [''Soap'']]"
  let ?b = "[dict_row [''Category'', ''Product Name''] [''Beverages'', ''Green Tea''],
             dict_row [''Category'', ''Product Name''] [''Beverages'']]"
  have 1: "\<exists>p \<in> set ?a. p ''Category'' = None \<or> p ''Product Name'' = None"
    by (simp add: dict_row_def)
  have 2: "\<forall>p \<in> set ?b. p ''Category'' \<noteq> None \<and> p ''Product Name'' \<noteq> None"
    by (simp add: dict_row_def)
  have 3: "\<exists>p \<in> set ?b. p ''Product Name'' = Some VNone"
    by (simp add: dict_row_def)
  have 4: "\<exists>k. audit_categorization ?a = Inl (KeyError k)"
    using audit_fails_iff_key_or_name_missing [of ?a, THEN conjunct2, THEN conjunct1] 1
    by (rule mp)
  have 5: "audit_categorization ?b = Inl AttributeError"
    using audit_fails_iff_key_or_name_missing [of ?b, THEN conjunct2, THEN conjunct2]
      conjI [OF 2 3]
    by (rule mp)
  show ?thesis
    by (rule conjI [OF 1 conjI [OF 4 conjI [OF 3 5]]])
qed

subsection \<open>Determinism\<close>




end
